theory Spec2Isabelle
  imports Main "HOL-Library.Word" "HOL-Library.AList"
begin

section \<open>Values and exceptions\<close>

text \<open>
  The program is one Python file, \<^verbatim>\<open>fetch-straw-conditions.py\<close>. Python exceptions are
  values of \<open>exn\<close>; a function that may raise returns \<open>exn + 'a\<close> with \<open>Inl\<close> the
  exception. \<open>Exception msg\<close> is the plain \<^verbatim>\<open>Exception(msg)\<close> the program raises itself,
  the other constructors are the built-in exceptions its subscripts and calls can raise, and
  \<open>Failure\<close> is whatever an external collaborator (ssh, lz4, the JSON parser, the
  database) raises.
\<close>

type_synonym byte = "8 word"

datatype key = KNone | KNum int | KStr string

datatype exn =
    Exception string
  | KeyError key
  | TypeError string
  | AttributeError string
  | IndexError string
  | Failure string

definition bind_exn :: "exn + 'a \<Rightarrow> ('a \<Rightarrow> exn + 'b) \<Rightarrow> exn + 'b" where
  "bind_exn m f = (case m of Inl e \<Rightarrow> Inl e | Inr x \<Rightarrow> f x)"

section \<open>The first complete JSON chunk of the decompressed buffer\<close>

text \<open>
  Lines 26 to 44 of \<^verbatim>\<open>fetch_midas_configuration\<close>. The buffer is a Python \<^verbatim>\<open>bytes\<close>
  object, so \<^verbatim>\<open>buff[idx]\<close> is an integer below 256 and \<^verbatim>\<open>b'{'[0]\<close> is 123.
\<close>

definition plus_byte :: byte where
  "plus_byte = 0x7B"

definition mnus_byte :: byte where
  "mnus_byte = 0x7D"

definition start :: nat where
  "start = 16"

text \<open>
  The \<^verbatim>\<open>while idx < end\<close> loop, returning the final \<^verbatim>\<open>idx\<close>. The index read is always
  below \<^verbatim>\<open>end = len(buff)\<close>.
\<close>

function scan :: "byte list \<Rightarrow> nat \<Rightarrow> int \<Rightarrow> nat \<Rightarrow> nat" where
  "scan buff idx score end =
     (if idx < end then
        (let score' = (if buff ! idx = plus_byte then score + 1
                       else if buff ! idx = mnus_byte then score - 1
                       else score);
             idx' = idx + 1
         in if score' < 1 then idx' else scan buff idx' score' end)
      else idx)"
  by pat_completeness auto
termination
  by (relation "measure (\<lambda>(buff, idx, score, end). end - idx)") auto

declare scan.simps [simp del]

text \<open>\<^verbatim>\<open>buff[lo:hi]\<close> for \<open>lo \<le> hi\<close>, both non-negative.\<close>

definition bytes_slice :: "'a list \<Rightarrow> nat \<Rightarrow> nat \<Rightarrow> 'a list" where
  "bytes_slice xs lo hi = take (hi - lo) (drop lo xs)"

definition first_json_chunk :: "byte list \<Rightarrow> exn + byte list" where
  "first_json_chunk buff =
     (if length buff \<le> start then Inl (IndexError ''index out of range'')
      else if buff ! start \<noteq> plus_byte then Inl (Exception ''malformed midas configuration'')
      else Inr (bytes_slice buff start (scan buff start 0 (length buff))))"

text \<open>
  The depth counter in the words of the specification: plus one per open delimiter, minus
  one per close delimiter, every other byte ignored. \<open>depths bs\<close> lists the counter after
  each byte of \<open>bs\<close>.
\<close>

definition depth :: "byte list \<Rightarrow> int" where
  "depth bs = int (count_list bs plus_byte) - int (count_list bs mnus_byte)"

definition depths :: "byte list \<Rightarrow> int list" where
  "depths bs = map (\<lambda>n. depth (take n bs)) [1..<Suc (length bs)]"

section \<open>Formatting\<close>

text \<open>
  \<^verbatim>\<open>'%d' % n\<close> and \<^verbatim>\<open>'%03d' % n\<close> on Python's unbounded integers. The second pads with
  zeros after the sign up to a total width of three and never truncates.
\<close>

definition digit_char :: "nat \<Rightarrow> char" where
  "digit_char d = ''0123456789'' ! d"

fun str_nat :: "nat \<Rightarrow> string" where
  "str_nat n = (if n < 10 then [digit_char n] else str_nat (n div 10) @ [digit_char (n mod 10)])"

declare str_nat.simps [simp del]

definition fmt_d :: "int \<Rightarrow> string" where
  "fmt_d n = (if n < 0 then CHR ''-'' # str_nat (nat (- n)) else str_nat (nat n))"

definition fmt_03d :: "int \<Rightarrow> string" where
  "fmt_03d n =
     (let sign = (if n < 0 then ''-'' else []);
          digits = str_nat (nat \<bar>n\<bar>)
      in sign @ replicate (3 - length sign - length digits) CHR ''0'' @ digits)"

definition quoted :: "string \<Rightarrow> string" where
  "quoted s = CHR 0x27 # s @ [CHR 0x27]"

section \<open>The parsed configuration tree\<close>

text \<open>
  What \<^verbatim>\<open>json.loads\<close> returns: \<^verbatim>\<open>None\<close>, booleans, integers, strings, lists and
  dictionaries. A dictionary is the list of its items in iteration order, with distinct
  keys. Floating-point numbers are left out: no function of the program computes with one.
\<close>

datatype json =
    JNull
  | JBool bool
  | JInt int
  | JStr string
  | JArr "json list"
  | JObj "(string \<times> json) list"

definition type_name :: "json \<Rightarrow> string" where
  "type_name v = (case v of JNull \<Rightarrow> ''NoneType'' | JBool _ \<Rightarrow> ''bool'' | JInt _ \<Rightarrow> ''int''
     | JStr _ \<Rightarrow> ''str'' | JArr _ \<Rightarrow> ''list'' | JObj _ \<Rightarrow> ''dict'')"

text \<open>
  \<^verbatim>\<open>v[k]\<close> for a string \<open>k\<close>: only a dictionary can be subscripted by a string. The
  messages of the type errors are those of Python 3.11.
\<close>

definition subscript :: "json \<Rightarrow> string \<Rightarrow> exn + json" where
  "subscript v k =
     (case v of
        JObj kvs \<Rightarrow> (case map_of kvs k of Some x \<Rightarrow> Inr x | None \<Rightarrow> Inl (KeyError (KStr k)))
      | JArr xs \<Rightarrow> Inl (TypeError ''list indices must be integers or slices, not str'')
      | JStr s \<Rightarrow> Inl (TypeError (''string indices must be integers, not '' @ quoted ''str''))
      | _ \<Rightarrow> Inl (TypeError (quoted (type_name v) @ '' object is not subscriptable'')))"

text \<open>\<^verbatim>\<open>v.items()\<close>: only a dictionary has the attribute.\<close>

definition items :: "json \<Rightarrow> exn + (string \<times> json) list" where
  "items v =
     (case v of
        JObj kvs \<Rightarrow> Inr kvs
      | _ \<Rightarrow> Inl (AttributeError (quoted (type_name v) @ '' object has no attribute ''
                 @ quoted ''items'')))"

text \<open>\<^verbatim>\<open>len(v)\<close>.\<close>

definition len :: "json \<Rightarrow> exn + nat" where
  "len v =
     (case v of
        JArr xs \<Rightarrow> Inr (length xs)
      | JStr s \<Rightarrow> Inr (length s)
      | JObj kvs \<Rightarrow> Inr (length kvs)
      | _ \<Rightarrow> Inl (TypeError (''object of type '' @ quoted (type_name v) @ '' has no len()'')))"

text \<open>
  \<^verbatim>\<open>v[i]\<close> for an index \<open>i\<close> of \<^verbatim>\<open>range(len(v))\<close>: an element of a list, a one-character
  string of a string, and a missing key of a dictionary, whose keys are strings.
\<close>

definition getitem :: "json \<Rightarrow> nat \<Rightarrow> exn + json" where
  "getitem v i =
     (case v of
        JArr xs \<Rightarrow> (if i < length xs then Inr (xs ! i) else Inl (IndexError ''list index out of range''))
      | JStr s \<Rightarrow> (if i < length s then Inr (JStr [s ! i]) else Inl (IndexError ''string index out of range''))
      | JObj kvs \<Rightarrow> Inl (KeyError (KNum (int i)))
      | _ \<Rightarrow> Inl (TypeError (quoted (type_name v) @ '' object is not subscriptable'')))"

text \<open>Truth value of a parsed value, as \<^verbatim>\<open>not v\<close> tests it.\<close>

definition truthy :: "json \<Rightarrow> bool" where
  "truthy v =
     (case v of JNull \<Rightarrow> False | JBool b \<Rightarrow> b | JInt i \<Rightarrow> i \<noteq> 0 | JStr s \<Rightarrow> s \<noteq> []
      | JArr xs \<Rightarrow> xs \<noteq> [] | JObj kvs \<Rightarrow> kvs \<noteq> [])"

text \<open>
  A value used as a dictionary key. Lists and dictionaries are unhashable; \<^verbatim>\<open>True\<close> and
  \<^verbatim>\<open>1\<close> are the same key, as are \<^verbatim>\<open>False\<close> and \<^verbatim>\<open>0\<close>.
\<close>

definition hash_key :: "json \<Rightarrow> exn + key" where
  "hash_key v =
     (case v of
        JNull \<Rightarrow> Inr KNone
      | JBool b \<Rightarrow> Inr (KNum (if b then 1 else 0))
      | JInt i \<Rightarrow> Inr (KNum i)
      | JStr s \<Rightarrow> Inr (KStr s)
      | _ \<Rightarrow> Inl (TypeError (''unhashable type: '' @ quoted (type_name v))))"

text \<open>
  \<^verbatim>\<open>'%s' % v\<close> for a hashable value. The program formats a label only after it has been
  looked up in a dictionary, so a list or a dictionary never gets here.
\<close>

definition py_str :: "json \<Rightarrow> string" where
  "py_str v =
     (case v of JNull \<Rightarrow> ''None'' | JBool b \<Rightarrow> (if b then ''True'' else ''False'')
      | JInt i \<Rightarrow> fmt_d i | JStr s \<Rightarrow> s | _ \<Rightarrow> [])"

text \<open>
  \<^verbatim>\<open>str(e)\<close>. A \<^verbatim>\<open>KeyError\<close> prints the \<^verbatim>\<open>repr\<close> of its key; the only string key that is
  printed is \<^verbatim>\<open>'ch_mask'\<close>, whose \<^verbatim>\<open>repr\<close> is the string between single quotes.
\<close>

definition str_exn :: "exn \<Rightarrow> string" where
  "str_exn e =
     (case e of
        Exception m \<Rightarrow> m
      | KeyError k \<Rightarrow> (case k of KNone \<Rightarrow> ''None'' | KNum i \<Rightarrow> fmt_d i | KStr s \<Rightarrow> quoted s)
      | TypeError m \<Rightarrow> m
      | AttributeError m \<Rightarrow> m
      | IndexError m \<Rightarrow> m
      | Failure m \<Rightarrow> m)"

section \<open>The Configuration Navigator\<close>

text \<open>
  \<^verbatim>\<open>re.match\<close> anchors the pattern at the start of the key only, and \<^verbatim>\<open>[0-9]\<close> accepts
  the ten ASCII digits.
\<close>

definition is_digit :: "char \<Rightarrow> bool" where
  "is_digit c = (c \<in> set ''0123456789'')"

definition match_station :: "string \<Rightarrow> bool" where
  "match_station kst = (take 10 kst = ''Station_00'')"

definition match_plane :: "string \<Rightarrow> bool" where
  "match_plane kpl = (take 6 kpl = ''Plane_'' \<and> 8 \<le> length kpl \<and> is_digit (kpl ! 6) \<and> is_digit (kpl ! 7))"

definition match_panel :: "string \<Rightarrow> bool" where
  "match_panel kpn = (take 6 kpn = ''Panel_'' \<and> 8 \<le> length kpn \<and> is_digit (kpn ! 6) \<and> is_digit (kpn ! 7))"

text \<open>
  A panel record maps a field name to a list of straw indices; a conditions dictionary is
  the list of its items in insertion order.
\<close>

type_synonym panel_record = "string \<rightharpoonup> int list"

type_synonym conditions = "(key \<times> panel_record) list"

text \<open>The list comprehension of lines 74 and 75, over the indices \<^verbatim>\<open>range(len(enabled))\<close>.\<close>

fun disabled_indices :: "json \<Rightarrow> nat list \<Rightarrow> exn + int list" where
  "disabled_indices enabled [] = Inr []"
| "disabled_indices enabled (i # rest) =
     bind_exn (getitem enabled i) (\<lambda>x.
     bind_exn (disabled_indices enabled rest) (\<lambda>tail.
     Inr (if \<not> truthy x then int i # tail else tail)))"

text \<open>The body of the \<^verbatim>\<open>try\<close> statement, lines 71 to 76, up to the record that is stored.\<close>

definition read_mask :: "json \<Rightarrow> exn + panel_record" where
  "read_mask vpn =
     bind_exn (subscript vpn ''ch_mask'') (\<lambda>enabled.
     bind_exn (len enabled) (\<lambda>n.
     if n \<noteq> 96 then Inl (Exception ''malformed readout mask'')
     else bind_exn (disabled_indices enabled [0..<n]) (\<lambda>disabled.
          Inr [''readout_disabled'' \<mapsto> disabled])))"

text \<open>The body of the innermost loop, lines 66 to 79, on the dictionary \<open>rv\<close> built so far.\<close>

definition visit_panel :: "conditions \<Rightarrow> json \<Rightarrow> exn + conditions" where
  "visit_panel rv vpn =
     bind_exn (subscript vpn ''Name'') (\<lambda>label.
     bind_exn (hash_key label) (\<lambda>k.
     if k \<in> fst ` set rv
     then Inl (Exception (''encountered duplicate panel '' @ py_str label))
     else (case read_mask vpn of
             Inl e \<Rightarrow> Inl (Exception (''exception: '' @ py_str label @ '': '' @ str_exn e))
           | Inr r \<Rightarrow> Inr (AList.update k r rv))))"

fun visit_panels :: "conditions \<Rightarrow> (string \<times> json) list \<Rightarrow> exn + conditions" where
  "visit_panels rv [] = Inr rv"
| "visit_panels rv ((kpn, vpn) # rest) =
     (if match_panel kpn
      then bind_exn (visit_panel rv vpn) (\<lambda>rv'. visit_panels rv' rest)
      else visit_panels rv rest)"

fun visit_planes :: "conditions \<Rightarrow> (string \<times> json) list \<Rightarrow> exn + conditions" where
  "visit_planes rv [] = Inr rv"
| "visit_planes rv ((kpl, vpl) # rest) =
     (if match_plane kpl
      then bind_exn (items vpl) (\<lambda>panels.
           bind_exn (visit_panels rv panels) (\<lambda>rv'. visit_planes rv' rest))
      else visit_planes rv rest)"

fun visit_stations :: "conditions \<Rightarrow> (string \<times> json) list \<Rightarrow> exn + conditions" where
  "visit_stations rv [] = Inr rv"
| "visit_stations rv ((kst, vst) # rest) =
     (if match_station kst
      then bind_exn (items vst) (\<lambda>planes.
           bind_exn (visit_planes rv planes) (\<lambda>rv'. visit_stations rv' rest))
      else visit_stations rv rest)"

text \<open>
  Lines 54 to 57 of \<^verbatim>\<open>get_midas_conditions\<close>, and the \<^verbatim>\<open>configuration.items()\<close> of line 60.
\<close>

definition tracker_stations :: "json \<Rightarrow> exn + (string \<times> json) list" where
  "tracker_stations configuration =
     bind_exn (subscript configuration ''Mu2e'') (\<lambda>configuration.
     bind_exn (subscript configuration ''RunConfigurations'') (\<lambda>configuration.
     bind_exn (subscript configuration ''train_station'') (\<lambda>configuration.
     bind_exn (subscript configuration ''Tracker'') (\<lambda>configuration.
     items configuration))))"

text \<open>Lines 54 to 80 of \<^verbatim>\<open>get_midas_conditions\<close>, on the parsed configuration.\<close>

definition navigate :: "json \<Rightarrow> exn + conditions" where
  "navigate configuration =
     bind_exn (tracker_stations configuration) (\<lambda>stations. visit_stations [] stations)"

text \<open>
  The panel nodes the three nested \<^verbatim>\<open>for\<close> statements reach, in the order they reach them. A value
  that is not a dictionary has no items to descend into.
\<close>

definition dict_items :: "json \<Rightarrow> (string \<times> json) list" where
  "dict_items v = (case v of JObj kvs \<Rightarrow> kvs | _ \<Rightarrow> [])"

definition panels_of_plane :: "(string \<times> json) list \<Rightarrow> json list" where
  "panels_of_plane panels = map snd (filter (\<lambda>(kpn, vpn). match_panel kpn) panels)"

definition panels_of_station :: "(string \<times> json) list \<Rightarrow> json list" where
  "panels_of_station planes =
     concat (map (\<lambda>(kpl, vpl). panels_of_plane (dict_items vpl))
                 (filter (\<lambda>(kpl, vpl). match_plane kpl) planes))"

definition panel_nodes :: "(string \<times> json) list \<Rightarrow> json list" where
  "panel_nodes stations =
     concat (map (\<lambda>(kst, vst). panels_of_station (dict_items vst))
                 (filter (\<lambda>(kst, vst). match_station kst) stations))"

section \<open>External collaborators\<close>

text \<open>
  The library calls the program makes are parameters: \<^verbatim>\<open>os.path.join\<close>, the \<^verbatim>\<open>%\<close>
  operator on the file-name pattern, \<^verbatim>\<open>subprocess.check_output\<close>,
  \<^verbatim>\<open>lz4.frame.decompress\<close>, \<^verbatim>\<open>bytes.decode\<close>, \<^verbatim>\<open>json.loads\<close>, and \<^verbatim>\<open>psycopg2.connect\<close>,
  which gives the function that runs one statement on a cursor and yields its rows.
\<close>

type_synonym row = "int \<times> int list \<times> int list"

record env =
  path_join :: "string \<Rightarrow> string \<Rightarrow> string"
  percent_run :: "string \<Rightarrow> int \<Rightarrow> exn + string"
  check_output :: "string list \<Rightarrow> exn + byte list"
  lz4_decompress :: "byte list \<Rightarrow> exn + byte list"
  bytes_decode :: "byte list \<Rightarrow> exn + string"
  json_loads :: "string \<Rightarrow> exn + json"
  pg_connect :: "string \<Rightarrow> exn + (string \<Rightarrow> exn + row list)"

definition fetch_compressed_midas_configuration ::
  "env \<Rightarrow> string \<Rightarrow> string \<Rightarrow> string \<Rightarrow> int \<Rightarrow> exn + byte list" where
  "fetch_compressed_midas_configuration env host base pattern run =
     bind_exn (percent_run env pattern run) (\<lambda>name.
     check_output env [''ssh'', host, ''cat '' @ path_join env base name])"

definition fetch_midas_configuration ::
  "env \<Rightarrow> string \<Rightarrow> string \<Rightarrow> string \<Rightarrow> int \<Rightarrow> exn + json" where
  "fetch_midas_configuration env host base pattern run =
     bind_exn (fetch_compressed_midas_configuration env host base pattern run) (\<lambda>buff.
     bind_exn (lz4_decompress env buff) (\<lambda>buff.
     bind_exn (first_json_chunk buff) (\<lambda>buff.
     bind_exn (bytes_decode env buff) (\<lambda>buff.
     json_loads env buff))))"

definition get_midas_conditions ::
  "env \<Rightarrow> string \<Rightarrow> string \<Rightarrow> string \<Rightarrow> int \<Rightarrow> exn + conditions" where
  "get_midas_conditions env host base pattern run =
     bind_exn (fetch_midas_configuration env host base pattern run) navigate"

section \<open>The Hardware Condition Fetcher\<close>

text \<open>The loop \<^verbatim>\<open>for i,panel in enumerate(panels)\<close> of lines 86 to 89.\<close>

fun query_predicates :: "nat \<Rightarrow> int list \<Rightarrow> string \<Rightarrow> string" where
  "query_predicates i [] rv = rv"
| "query_predicates i (panel # panels) rv =
     query_predicates (Suc i) panels
       ((if 0 < i then rv @ '' OR'' else rv) @ '' panel_id = '' @ fmt_d panel)"

definition build_hardware_query :: "int list \<Rightarrow> string" where
  "build_hardware_query panels =
     (let rv = ''SELECT panel_id,missing_straws,missing_wires from qc.panels'';
          rv = (if 0 < length panels then rv @ '' WHERE'' else rv);
          rv = query_predicates 0 panels rv
      in rv @ '' ORDER BY panel_id ASC;'')"

text \<open>The loop \<^verbatim>\<open>for row in cursor\<close> of lines 101 to 106.\<close>

fun hardware_rows :: "row list \<Rightarrow> conditions \<Rightarrow> conditions" where
  "hardware_rows [] rv = rv"
| "hardware_rows ((panel_id, straws, wires) # rows) rv =
     hardware_rows rows
       (AList.update (KStr (''MN'' @ fmt_03d panel_id))
          [''missing_straws'' \<mapsto> straws, ''missing_wires'' \<mapsto> wires] rv)"

text \<open>
  The result comes with the list of the statements passed to \<^verbatim>\<open>cursor.execute\<close>, in
  order. The default argument \<^verbatim>\<open>panels=[]\<close> is what the call \<^verbatim>\<open>build_hardware_query()\<close>
  of line 96 passes.
\<close>

definition get_hardware_conditions ::
  "env \<Rightarrow> string \<Rightarrow> int \<Rightarrow> string \<Rightarrow> string \<Rightarrow> int \<Rightarrow> string list \<times> (exn + conditions)" where
  "get_hardware_conditions env host port user db run =
     (let dsn = ''host='' @ host @ '' port='' @ fmt_d port @ '' user='' @ user @ '' dbname='' @ db
      in case pg_connect env dsn of
           Inl e \<Rightarrow> ([], Inl e)
         | Inr cursor_execute \<Rightarrow>
             (let query = build_hardware_query []
              in ([query],
                  case cursor_execute query of
                    Inl e \<Rightarrow> Inl e
                  | Inr rows \<Rightarrow> Inr (hardware_rows rows []))))"

section \<open>The Condition Reconciler\<close>

text \<open>The run configuration file, with the fields \<^verbatim>\<open>get_conditions\<close> reads.\<close>

record config =
  midas_host :: string
  midas_base :: string
  midas_pattern :: string
  pg_host :: string
  pg_port :: int
  pg_user :: string
  pg_db :: string

text \<open>\<^verbatim>\<open>['MN%03d' % i for i in range(1,999+1)]\<close>\<close>

definition default_allowed :: "key list" where
  "default_allowed = map (\<lambda>i. KStr (''MN'' @ fmt_03d i)) [1..999]"

text \<open>The record built for one key, lines 137 to 141.\<close>

definition merged_record :: "conditions \<Rightarrow> conditions \<Rightarrow> key \<Rightarrow> panel_record" where
  "merged_record midas_conditions hardware_conditions key =
     (let tmp = Map.empty;
          tmp = (case map_of midas_conditions key of None \<Rightarrow> tmp | Some r \<Rightarrow> tmp ++ r);
          tmp = (case map_of hardware_conditions key of None \<Rightarrow> tmp | Some r \<Rightarrow> tmp ++ r)
      in tmp)"

text \<open>
  Lines 129 to 144. Python leaves the iteration order of the set \<^verbatim>\<open>keys\<close> open; here it is
  the order of first insertion, and no statement below depends on it.
\<close>

definition reconcile :: "conditions \<Rightarrow> conditions \<Rightarrow> key list option \<Rightarrow> conditions" where
  "reconcile midas_conditions hardware_conditions allowed =
     (let allowed = (case allowed of None \<Rightarrow> default_allowed | Some a \<Rightarrow> a);
          midas_keys = map fst midas_conditions;
          hardware_keys = map fst hardware_conditions;
          keys = filter (\<lambda>k. k \<in> set allowed) (remdups (midas_keys @ hardware_keys))
      in map (\<lambda>key. (key, merged_record midas_conditions hardware_conditions key)) keys)"

definition get_conditions ::
  "env \<Rightarrow> int \<Rightarrow> config \<Rightarrow> key list option \<Rightarrow> string list \<times> (exn + conditions)" where
  "get_conditions env run config allowed =
     (case get_midas_conditions env (midas_host config) (midas_base config)
             (midas_pattern config) run of
        Inl e \<Rightarrow> ([], Inl e)
      | Inr midas_conditions \<Rightarrow>
          (case get_hardware_conditions env (pg_host config) (pg_port config)
                  (pg_user config) (pg_db config) run of
             (sent, Inl e) \<Rightarrow> (sent, Inl e)
           | (sent, Inr hardware_conditions) \<Rightarrow>
               (sent, Inr (reconcile midas_conditions hardware_conditions allowed))))"

section \<open>The Table Emitter\<close>

text \<open>
  The lines handed to \<^verbatim>\<open>write\<close> are collected in order; the second component is the
  exception that ended the run, if any. Lines written before an exception stay written.
  A field value is a list of integers, as the relational schema declares it, and
  \<^verbatim>\<open>write\<close> returns normally, so the two subscripts of lines 162 and 163 are the only
  failures here; a run on other values can also fail when it iterates over a field value
  or formats an index, and nothing below says that it cannot.
\<close>

type_synonym geography = "key \<rightharpoonup> int \<times> int"

type_synonym scheme = "(string \<times> (string \<times> string) list) list"

definition data_line :: "int \<Rightarrow> int \<Rightarrow> string \<Rightarrow> int \<Rightarrow> string" where
  "data_line plane panel label straw =
     fmt_d plane @ ''_'' @ fmt_d panel @ ''_'' @ fmt_d straw @ '', '' @ label"

fun write_panels ::
  "geography \<Rightarrow> string \<Rightarrow> string \<Rightarrow> conditions \<Rightarrow> string list \<Rightarrow> string list \<times> exn option" where
  "write_panels geography label lookup [] out = (out, None)"
| "write_panels geography label lookup ((minnesota, collections) # rest) out =
     (case geography minnesota of
        None \<Rightarrow> (out, Some (KeyError minnesota))
      | Some (plane, panel) \<Rightarrow>
          (case collections lookup of
             None \<Rightarrow> (out, Some (KeyError (KStr lookup)))
           | Some straws \<Rightarrow>
               write_panels geography label lookup rest
                 (out @ map (data_line plane panel label) straws)))"

fun write_criteria ::
  "conditions \<Rightarrow> geography \<Rightarrow> (string \<times> string) list \<Rightarrow> string list \<Rightarrow> string list \<times> exn option" where
  "write_criteria conditions geography [] out = (out, None)"
| "write_criteria conditions geography ((label, lookup) # rest) out =
     (case write_panels geography label lookup conditions out of
        (out', Some e) \<Rightarrow> (out', Some e)
      | (out', None) \<Rightarrow> write_criteria conditions geography rest out')"

fun write_levels ::
  "conditions \<Rightarrow> geography \<Rightarrow> scheme \<Rightarrow> string list \<Rightarrow> string list \<times> exn option" where
  "write_levels conditions geography [] out = (out, None)"
| "write_levels conditions geography ((level, criteria) # rest) out =
     (case write_criteria conditions geography criteria (out @ [level]) of
        (out', Some e) \<Rightarrow> (out', Some e)
      | (out', None) \<Rightarrow> write_levels conditions geography rest out')"

definition write_offline_table :: "conditions \<Rightarrow> geography \<Rightarrow> scheme \<Rightarrow> string list \<times> exn option" where
  "write_offline_table conditions geography scheme = write_levels conditions geography scheme []"

text \<open>The scheme \<^verbatim>\<open>main\<close> passes, lines 172 to 180.\<close>

definition status_levels :: scheme where
  "status_levels =
     [(''TrkStrawStatusLong'', [(''Absent'', ''missing_straws''), (''NoWire'', ''missing_wires'')]),
      (''TrkStrawStatusShort'', [(''Disabled'', ''readout_disabled'')])]"

section \<open>The query in the words of the specification\<close>

text \<open>
  One equality predicate per panel id, and the chain that joins predicates with \<open>OR\<close>,
  keeping their order and their duplicates.
\<close>

definition equality_predicate :: "int \<Rightarrow> string" where
  "equality_predicate n = ''panel_id = '' @ fmt_d n"

fun or_chain :: "string list \<Rightarrow> string" where
  "or_chain [] = []"
| "or_chain [p] = p"
| "or_chain (p # q # ps) = p @ '' OR '' @ or_chain (q # ps)"

section \<open>The reconciliation in the words of the specification\<close>

text \<open>
  The label \<open>MN\<close> followed by the three decimal digits of a number below 1000, and the
  fields a source holds for a label: those of its entry, none when it has no entry.
\<close>

definition synthetic_label :: "nat \<Rightarrow> key" where
  "synthetic_label i =
     KStr [CHR ''M'', CHR ''N'', digit_char (i div 100), digit_char (i div 10 mod 10),
           digit_char (i mod 10)]"

definition fields_of :: "conditions \<Rightarrow> key \<Rightarrow> panel_record" where
  "fields_of source label = (case map_of source label of None \<Rightarrow> Map.empty | Some r \<Rightarrow> r)"

section \<open>The table in the words of the specification\<close>

text \<open>
  The data lines of one panel for one declared pair of output label and source field: one
  line per index of the panel's list for that field. Under a level come the lines of all
  its declared pairs, each pair running over all panels; the table is, level by level, the
  header line followed by the level's data lines.
\<close>

definition panel_lines :: "geography \<Rightarrow> string \<Rightarrow> string \<Rightarrow> key \<times> panel_record \<Rightarrow> string list" where
  "panel_lines geography label lookup p =
     (case (geography (fst p), snd p lookup) of
        (Some (plane, panel), Some straws) \<Rightarrow> map (data_line plane panel label) straws
      | _ \<Rightarrow> [])"

definition level_lines :: "conditions \<Rightarrow> geography \<Rightarrow> (string \<times> string) list \<Rightarrow> string list" where
  "level_lines conditions geography criteria =
     concat (map (\<lambda>(label, lookup). concat (map (panel_lines geography label lookup) conditions))
                 criteria)"

definition table_lines :: "conditions \<Rightarrow> geography \<Rightarrow> scheme \<Rightarrow> string list" where
  "table_lines conditions geography scheme =
     concat (map (\<lambda>(level, criteria). level # level_lines conditions geography criteria) scheme)"

definition field_length :: "panel_record \<Rightarrow> string \<Rightarrow> nat" where
  "field_length collections lookup =
     (case collections lookup of None \<Rightarrow> 0 | Some straws \<Rightarrow> length straws)"

section \<open>The traversal in the words of the specification\<close>

text \<open>
  Visiting a list of panel nodes in order, stopping at the first visit that raises. The
  key a panel node contributes is the hashed value of its \<open>Name\<close>, when it has one. A tree
  has the shape of the schema when what it keeps under a station key and under a plane
  key is a mapping. The disabled channels of a mask are the indices of its falsy entries,
  in increasing order.
\<close>

fun visit_all :: "conditions \<Rightarrow> json list \<Rightarrow> exn + conditions" where
  "visit_all rv [] = Inr rv"
| "visit_all rv (vpn # rest) = bind_exn (visit_panel rv vpn) (\<lambda>rv'. visit_all rv' rest)"

definition panel_key :: "json \<Rightarrow> key option" where
  "panel_key vpn =
     (case subscript vpn ''Name'' of
        Inl e \<Rightarrow> None
      | Inr label \<Rightarrow> (case hash_key label of Inl e \<Rightarrow> None | Inr k \<Rightarrow> Some k))"

definition is_dict :: "json \<Rightarrow> bool" where
  "is_dict v = (case v of JObj kvs \<Rightarrow> True | _ \<Rightarrow> False)"

definition plane_shaped :: "(string \<times> json) list \<Rightarrow> bool" where
  "plane_shaped planes = list_all (\<lambda>(kpl, vpl). match_plane kpl \<longrightarrow> is_dict vpl) planes"

definition tree_shaped :: "(string \<times> json) list \<Rightarrow> bool" where
  "tree_shaped stations =
     list_all (\<lambda>(kst, vst). match_station kst \<longrightarrow> is_dict vst \<and> plane_shaped (dict_items vst))
       stations"

definition falsy_indices :: "json list \<Rightarrow> int list" where
  "falsy_indices enabled = map int (filter (\<lambda>i. \<not> truthy (enabled ! i)) [0..<length enabled])"

text \<open>
  Example configurations: a panel node with a name and a mask, and the tree that holds
  the given panels under \<open>Mu2e\<close>, \<open>RunConfigurations\<close>, \<open>train_station\<close>, \<open>Tracker\<close>,
  \<open>Station_00\<close>, \<open>Plane_00\<close>.
\<close>

definition panel_node :: "string \<Rightarrow> json list \<Rightarrow> json" where
  "panel_node name enabled = JObj [(''Name'', JStr name), (''ch_mask'', JArr enabled)]"

definition one_plane_tree :: "(string \<times> json) list \<Rightarrow> json" where
  "one_plane_tree panels =
     JObj [(''Mu2e'', JObj [(''RunConfigurations'', JObj [(''train_station'',
       JObj [(''Tracker'', JObj [(''Station_00'', JObj [(''Plane_00'', JObj panels)])])])])])]"

section \<open>The scan stops at the first return to depth zero\<close>

lemma depth_Nil: "depth [] = 0"
  by (simp add: depth_def)

lemma depth_append: "depth (xs @ ys) = depth xs + depth ys"
  by (induction xs) (auto simp: depth_def)

lemma depth_single:
  "depth [b] = (if b = plus_byte then 1 else if b = mnus_byte then - 1 else 0)"
  by (simp add: depth_def plus_byte_def mnus_byte_def)

lemma slice_step:
  assumes "idx < j" and "idx < length buff"
  shows "bytes_slice buff idx j = buff ! idx # bytes_slice buff (Suc idx) j"
proof -
  from assms obtain d where d: "j - idx = Suc d"
    by (metis Suc_diff_Suc)
  have "j - Suc idx = d" using d by simp
  moreover have "drop idx buff = buff ! idx # drop (Suc idx) buff"
    using assms(2) by (simp add: Cons_nth_drop_Suc)
  ultimately show ?thesis
    using d by (simp add: bytes_slice_def)
qed

lemma depth_slice_step:
  assumes "idx < j" and "idx < length buff"
  shows "depth (bytes_slice buff idx j) = depth [buff ! idx] + depth (bytes_slice buff (Suc idx) j)"
proof -
  have "bytes_slice buff idx j = [buff ! idx] @ bytes_slice buff (Suc idx) j"
    using slice_step [OF assms] by simp
  then show ?thesis
    by (simp only: depth_append)
qed

lemma slice_one: "idx < length buff \<Longrightarrow> bytes_slice buff idx (Suc idx) = [buff ! idx]"
  by (simp add: bytes_slice_def take_Suc_conv_app_nth [of 0] Cons_nth_drop_Suc [symmetric]
      hd_drop_conv_nth take_Suc)

lemma scan_first_zero:
  assumes "idx < j" and "j \<le> length buff"
    and "score + depth (bytes_slice buff idx j) < 1"
    and "\<forall>i. idx < i \<and> i < j \<longrightarrow> 1 \<le> score + depth (bytes_slice buff idx i)"
  shows "scan buff idx score (length buff) = j"
  using assms
proof (induction buff idx score "length buff" arbitrary: j rule: scan.induct)
  case (1 buff idx score)
  let ?s = "score + depth [buff ! idx]"
  have lt: "idx < length buff" using "1.prems" by simp
  have one: "depth (bytes_slice buff idx (Suc idx)) = depth [buff ! idx]"
    using lt by (simp add: slice_one)
  have unfold: "scan buff idx score (length buff) =
      (if ?s < 1 then Suc idx else scan buff (Suc idx) ?s (length buff))"
    using lt by (subst scan.simps) (simp add: depth_single Let_def)
  show ?case
  proof (cases "?s < 1")
    case True
    have "j = Suc idx"
    proof (rule ccontr)
      assume "j \<noteq> Suc idx"
      then have "idx < Suc idx \<and> Suc idx < j" using "1.prems"(1) by simp
      then have "1 \<le> score + depth (bytes_slice buff idx (Suc idx))"
        using "1.prems"(4) by blast
      then show False using True one by simp
    qed
    then show ?thesis using unfold True by simp
  next
    case False
    have "j \<noteq> Suc idx"
    proof
      assume "j = Suc idx"
      then show False using "1.prems"(3) one False by simp
    qed
    then have lt': "Suc idx < j" using "1.prems"(1) by simp
    have step: "\<And>i. idx < i \<Longrightarrow>
        score + depth (bytes_slice buff idx i) = ?s + depth (bytes_slice buff (Suc idx) i)"
      using lt by (simp add: depth_slice_step)
    have p3: "?s + depth (bytes_slice buff (Suc idx) j) < 1"
      using "1.prems"(3) step [of j] "1.prems"(1) by simp
    have p4: "\<forall>i. Suc idx < i \<and> i < j \<longrightarrow> 1 \<le> ?s + depth (bytes_slice buff (Suc idx) i)"
    proof (intro allI impI)
      fix i assume i: "Suc idx < i \<and> i < j"
      then have "1 \<le> score + depth (bytes_slice buff idx i)"
        using "1.prems"(4) by simp
      then show "1 \<le> ?s + depth (bytes_slice buff (Suc idx) i)"
        using step [of i] i by simp
    qed
    have "scan buff (Suc idx) ?s (length buff) = j"
    proof (rule "1.hyps" [where j = j])
      show "idx < length buff" by (rule lt)
      show "?s = (if buff ! idx = plus_byte then score + 1
                  else if buff ! idx = mnus_byte then score - 1 else score)"
        by (simp add: depth_single)
      show "Suc idx = idx + 1" by simp
      show "\<not> ?s < 1" by (rule False)
      show "Suc idx < j" by (rule lt')
      show "j \<le> length buff" using "1.prems"(2) .
      show "?s + depth (bytes_slice buff (Suc idx) j) < 1" by (rule p3)
      show "\<forall>i. Suc idx < i \<and> i < j \<longrightarrow> 1 \<le> ?s + depth (bytes_slice buff (Suc idx) i)"
        by (rule p4)
    qed
    then show ?thesis using unfold False by simp
  qed
qed

lemma scan_no_zero:
  assumes "idx \<le> length buff"
    and "\<forall>i. idx < i \<and> i \<le> length buff \<longrightarrow> 1 \<le> score + depth (bytes_slice buff idx i)"
  shows "scan buff idx score (length buff) = length buff"
  using assms
proof (induction buff idx score "length buff" rule: scan.induct)
  case (1 buff idx score)
  let ?s = "score + depth [buff ! idx]"
  show ?case
  proof (cases "idx < length buff")
    case False
    then show ?thesis using "1.prems"(1) by (subst scan.simps) simp
  next
    case lt: True
    have one: "depth (bytes_slice buff idx (Suc idx)) = depth [buff ! idx]"
      using lt by (simp add: slice_one)
    have "1 \<le> score + depth (bytes_slice buff idx (Suc idx))"
      using "1.prems"(2) lt by simp
    then have pos: "\<not> ?s < 1" using one by simp
    have "scan buff idx score (length buff) =
        (if ?s < 1 then Suc idx else scan buff (Suc idx) ?s (length buff))"
      using lt by (subst scan.simps) (simp add: depth_single Let_def)
    then have unfold: "scan buff idx score (length buff) = scan buff (Suc idx) ?s (length buff)"
      using pos by simp
    have step: "\<And>i. idx < i \<Longrightarrow>
        score + depth (bytes_slice buff idx i) = ?s + depth (bytes_slice buff (Suc idx) i)"
      using lt by (simp add: depth_slice_step)
    have "scan buff (Suc idx) ?s (length buff) = length buff"
    proof (rule "1.hyps")
      show "idx < length buff" by (rule lt)
      show "?s = (if buff ! idx = plus_byte then score + 1
                  else if buff ! idx = mnus_byte then score - 1 else score)"
        by (simp add: depth_single)
      show "Suc idx = idx + 1" by simp
      show "\<not> ?s < 1" by (rule pos)
      show "Suc idx \<le> length buff" using lt by simp
      show "\<forall>i. Suc idx < i \<and> i \<le> length buff \<longrightarrow>
          1 \<le> ?s + depth (bytes_slice buff (Suc idx) i)"
      proof (intro allI impI)
        fix i assume i: "Suc idx < i \<and> i \<le> length buff"
        then have "1 \<le> score + depth (bytes_slice buff idx i)"
          using "1.prems"(2) by simp
        then show "1 \<le> ?s + depth (bytes_slice buff (Suc idx) i)"
          using step [of i] i by simp
      qed
    qed
    then show ?thesis using unfold by simp
  qed
qed

text \<open>
  The counter moves by at most one per byte, so a region that opens with \<open>{\<close> and whose
  counter is not zero before its last byte keeps a counter of at least one until then.
\<close>

lemma depth_positive_until_zero:
  assumes "region \<noteq> []" and "hd region = plus_byte"
    and "\<forall>n. 0 < n \<and> n < length region \<longrightarrow> depth (take n region) \<noteq> 0"
  shows "0 < n \<Longrightarrow> n < length region \<Longrightarrow> 1 \<le> depth (take n region)"
proof (induction n)
  case 0
  then show ?case by simp
next
  case (Suc n)
  show ?case
  proof (cases "n = 0")
    case True
    have "take (Suc 0) region = [hd region]"
      using assms(1) by (cases region) simp_all
    then show ?thesis using True assms(2) by (simp add: depth_single)
  next
    case False
    then have ih: "1 \<le> depth (take n region)" using Suc by simp
    have "take (Suc n) region = take n region @ [region ! n]"
      using Suc.prems by (simp add: take_Suc_conv_app_nth)
    then have "depth (take (Suc n) region) = depth (take n region) + depth [region ! n]"
      by (simp only: depth_append)
    moreover have "- 1 \<le> depth [region ! n]"
      by (simp add: depth_single)
    moreover have "depth (take (Suc n) region) \<noteq> 0"
      using assms(3) Suc.prems by blast
    ultimately show ?thesis using ih by linarith
  qed
qed

lemma slice_after_header:
  assumes "length hdr = start"
  shows "bytes_slice (hdr @ body) start (start + n) = take n body"
  using assms by (simp add: bytes_slice_def)

section \<open>Claims about the Object Extractor\<close>

text \<open>
  C1. A buffer is a 16-byte header, then a balanced region, then any trailing bytes. The
  region opens with \<open>{\<close>, its depth counter is zero at its last byte and at no earlier
  byte. The extractor returns exactly the region, whatever the trailing bytes are.
\<close>

theorem extractor_returns_balanced_region:
  assumes "length hdr = 16" and "region \<noteq> []" and "hd region = plus_byte"
    and "depth region = 0"
    and "\<forall>n. 0 < n \<and> n < length region \<longrightarrow> depth (take n region) \<noteq> 0"
  shows "first_json_chunk (hdr @ region @ trail) = Inr region"
proof -
  let ?buff = "hdr @ region @ trail"
  let ?j = "start + length region"
  have hdr: "length hdr = start" using assms(1) by (simp add: start_def)
  have len: "start < length ?buff" using hdr assms(2) by simp
  have first: "?buff ! start = plus_byte"
    using hdr assms(2,3) by (simp add: nth_append hd_conv_nth)
  have sl: "\<And>n. n \<le> length region \<Longrightarrow> bytes_slice ?buff start (start + n) = take n region"
    using slice_after_header [OF hdr, of "region @ trail"] by simp
  have "scan ?buff start 0 (length ?buff) = ?j"
  proof (rule scan_first_zero)
    show "start < ?j" using assms(2) by simp
    show "?j \<le> length ?buff" using hdr by simp
    show "0 + depth (bytes_slice ?buff start ?j) < 1"
      using sl [of "length region"] assms(4) by simp
    show "\<forall>i. start < i \<and> i < ?j \<longrightarrow> 1 \<le> 0 + depth (bytes_slice ?buff start i)"
    proof (intro allI impI)
      fix i assume i: "start < i \<and> i < ?j"
      then obtain n where n: "i = start + n" "0 < n" "n < length region"
        by (metis add_diff_inverse_nat less_imp_add_positive nat_add_left_cancel_less
            not_less_iff_gr_or_eq)
      have "1 \<le> depth (take n region)"
        using depth_positive_until_zero [OF assms(2,3,5) n(2,3)] .
      then show "1 \<le> 0 + depth (bytes_slice ?buff start i)"
        using sl [of n] n by simp
    qed
  qed
  then have "bytes_slice ?buff start (scan ?buff start 0 (length ?buff)) = region"
    using sl [of "length region"] by simp
  then show ?thesis
    using len first by (simp add: first_json_chunk_def)
qed

theorem extractor_returns_balanced_region_witness:
  "first_json_chunk (replicate 16 0 @ [0x7B, 0x22, 0x7B, 0x7D, 0x7D] @ [0x7D, 0x0A, 0x7B])
     = Inr [0x7B, 0x22, 0x7B, 0x7D, 0x7D]"
proof -
  let ?r = "[0x7B, 0x22, 0x7B, 0x7D, 0x7D] :: byte list"
  have h5: "\<forall>n. 0 < n \<and> n < length ?r \<longrightarrow> depth (take n ?r) \<noteq> 0"
  proof (intro allI impI)
    fix n assume "0 < n \<and> n < length ?r"
    then have "n = 1 \<or> n = 2 \<or> n = 3 \<or> n = 4" by auto
    then show "depth (take n ?r) \<noteq> 0"
      by (auto simp: depth_def plus_byte_def mnus_byte_def)
  qed
  have h4: "depth ?r = 0"
    by (simp add: depth_def plus_byte_def mnus_byte_def)
  have h3: "hd ?r = plus_byte" by (simp add: plus_byte_def)
  have h1: "length (replicate 16 (0 :: byte)) = 16" by simp
  have h2: "?r \<noteq> []" by simp
  show ?thesis
    using extractor_returns_balanced_region [OF h1 h2 h3 h4 h5] .
qed

text \<open>
  C2 as stated fails: the scan has no check after its loop. The buffer below is a 16-byte
  header followed by the nine bytes \<^verbatim>\<open>{"a":"{"}\<close>. Its byte at offset 16 is \<open>{\<close>, its
  depth counter is 1, 1, 1, 1, 1, 1, 2, 2, 1 and so never returns to zero, and the
  extractor returns the nine bytes instead of raising.
\<close>

theorem extractor_unbalanced_counterexample:
  "first_json_chunk (replicate 16 0 @ [0x7B, 0x22, 0x61, 0x22, 0x3A, 0x22, 0x7B, 0x22, 0x7D])
     = Inr [0x7B, 0x22, 0x61, 0x22, 0x3A, 0x22, 0x7B, 0x22, 0x7D]
   \<and> depths [0x7B, 0x22, 0x61, 0x22, 0x3A, 0x22, 0x7B, 0x22, 0x7D] = [1, 1, 1, 1, 1, 1, 2, 2, 1]"
proof
  show "first_json_chunk (replicate 16 0 @ [0x7B, 0x22, 0x61, 0x22, 0x3A, 0x22, 0x7B, 0x22, 0x7D])
     = Inr [0x7B, 0x22, 0x61, 0x22, 0x3A, 0x22, 0x7B, 0x22, 0x7D]"
    by code_simp
  show "depths [0x7B, 0x22, 0x61, 0x22, 0x3A, 0x22, 0x7B, 0x22, 0x7D] = [1, 1, 1, 1, 1, 1, 2, 2, 1]"
    by code_simp
qed

text \<open>
  C2 as amended. The extractor raises the malformed-configuration exception exactly when
  the buffer has a byte at offset 16 and that byte is not \<open>{\<close>; a buffer of at most 16
  bytes raises the index error of \<^verbatim>\<open>buff[start]\<close>; these are its only failures. When the
  byte at offset 16 is \<open>{\<close> and the depth counter never returns to zero, the extractor
  raises nothing and returns every byte from offset 16 to the end of the buffer.
\<close>

theorem extractor_fails_only_on_leading_byte:
  "(first_json_chunk buff = Inl (Exception ''malformed midas configuration'')
      \<longleftrightarrow> 16 < length buff \<and> buff ! 16 \<noteq> plus_byte)
   \<and> (first_json_chunk buff = Inl (IndexError ''index out of range'') \<longleftrightarrow> length buff \<le> 16)
   \<and> ((\<exists>e. first_json_chunk buff = Inl e) \<longleftrightarrow> length buff \<le> 16 \<or> buff ! 16 \<noteq> plus_byte)
   \<and> (16 < length buff \<and> buff ! 16 = plus_byte
        \<and> (\<forall>n. 0 < n \<and> n \<le> length buff - 16 \<longrightarrow> depth (take n (drop 16 buff)) \<noteq> 0)
      \<longrightarrow> first_json_chunk buff = Inr (drop 16 buff))"
proof (intro conjI impI)
  show "first_json_chunk buff = Inl (Exception ''malformed midas configuration'')
      \<longleftrightarrow> 16 < length buff \<and> buff ! 16 \<noteq> plus_byte"
    by (auto simp: first_json_chunk_def start_def)
  show "first_json_chunk buff = Inl (IndexError ''index out of range'') \<longleftrightarrow> length buff \<le> 16"
    by (auto simp: first_json_chunk_def start_def)
  show "(\<exists>e. first_json_chunk buff = Inl e) \<longleftrightarrow> length buff \<le> 16 \<or> buff ! 16 \<noteq> plus_byte"
    by (auto simp: first_json_chunk_def start_def)
next
  assume a: "16 < length buff \<and> buff ! 16 = plus_byte
        \<and> (\<forall>n. 0 < n \<and> n \<le> length buff - 16 \<longrightarrow> depth (take n (drop 16 buff)) \<noteq> 0)"
  let ?body = "drop 16 buff"
  have body: "?body \<noteq> []" "hd ?body = plus_byte"
    using a by (simp_all add: hd_drop_conv_nth)
  have nz: "\<forall>n. 0 < n \<and> n < length (?body @ [0]) \<longrightarrow> depth (take n (?body @ [0])) \<noteq> 0"
    using a by simp
  have pos: "\<And>n. 0 < n \<Longrightarrow> n \<le> length ?body \<Longrightarrow> 1 \<le> depth (take n ?body)"
  proof -
    fix n assume n: "0 < n" "n \<le> length ?body"
    have "1 \<le> depth (take n (?body @ [0]))"
    proof (rule depth_positive_until_zero [OF _ _ nz n(1)])
      show "?body @ [0] \<noteq> []" by simp
      show "hd (?body @ [0]) = plus_byte" using body by simp
      show "n < length (?body @ [0])" using n(2) by simp
    qed
    then show "1 \<le> depth (take n ?body)" using n(2) by simp
  qed
  have "scan buff start 0 (length buff) = length buff"
  proof (rule scan_no_zero)
    show "start \<le> length buff" using a by (simp add: start_def)
    show "\<forall>i. start < i \<and> i \<le> length buff \<longrightarrow> 1 \<le> 0 + depth (bytes_slice buff start i)"
    proof (intro allI impI)
      fix i assume i: "start < i \<and> i \<le> length buff"
      then have "0 < i - 16" "i - 16 \<le> length ?body"
        using i by (auto simp: start_def)
      then have "1 \<le> depth (take (i - 16) ?body)" by (rule pos)
      then show "1 \<le> 0 + depth (bytes_slice buff start i)"
        by (simp add: bytes_slice_def start_def)
    qed
  qed
  then show "first_json_chunk buff = Inr (drop 16 buff)"
    using a by (simp add: first_json_chunk_def start_def bytes_slice_def)
qed

theorem extractor_fails_only_on_leading_byte_witness:
  "first_json_chunk (replicate 16 0 @ [0x7B, 0x7B, 0x7D]) = Inr [0x7B, 0x7B, 0x7D]
   \<and> first_json_chunk (replicate 16 0 @ [0x5B, 0x7D]) = Inl (Exception ''malformed midas configuration'')
   \<and> first_json_chunk (replicate 16 0) = Inl (IndexError ''index out of range'')"
proof (intro conjI)
  let ?b = "replicate 16 0 @ [0x7B, 0x7B, 0x7D] :: byte list"
  have d: "drop 16 ?b = [0x7B, 0x7B, 0x7D]" by simp
  have nz: "\<forall>n. 0 < n \<and> n \<le> length ?b - 16 \<longrightarrow> depth (take n (drop 16 ?b)) \<noteq> 0"
  proof (intro allI impI)
    fix n assume "0 < n \<and> n \<le> length ?b - 16"
    then have "n = 1 \<or> n = 2 \<or> n = 3" by auto
    then show "depth (take n (drop 16 ?b)) \<noteq> 0"
      unfolding d by (auto simp: depth_def plus_byte_def mnus_byte_def)
  qed
  have "16 < length ?b" by simp
  moreover have "?b ! 16 = plus_byte" by (simp add: nth_append plus_byte_def)
  ultimately show "first_json_chunk ?b = Inr [0x7B, 0x7B, 0x7D]"
    using extractor_fails_only_on_leading_byte [of ?b] nz d by simp
next
  let ?c = "replicate 16 0 @ [0x5B, 0x7D] :: byte list"
  have "16 < length ?c \<and> ?c ! 16 \<noteq> plus_byte" by (simp add: nth_append plus_byte_def)
  then show "first_json_chunk ?c = Inl (Exception ''malformed midas configuration'')"
    using extractor_fails_only_on_leading_byte [of ?c] by blast
next
  have "length (replicate 16 (0 :: byte)) \<le> 16" by simp
  then show "first_json_chunk (replicate 16 0) = Inl (IndexError ''index out of range'')"
    using extractor_fails_only_on_leading_byte [of "replicate 16 0"] by blast
qed

section \<open>Claims about the query\<close>

lemma query_predicates_later:
  "0 < i \<Longrightarrow> query_predicates i panels rv =
     rv @ concat (map (\<lambda>n. '' OR '' @ equality_predicate n) panels)"
  by (induction panels arbitrary: i rv) (simp_all add: equality_predicate_def)

lemma or_chain_Cons:
  "or_chain (p # ps) = p @ concat (map (\<lambda>q. '' OR '' @ q) ps)"
  by (induction ps arbitrary: p) simp_all

lemma query_predicates_first:
  "panels \<noteq> [] \<Longrightarrow> query_predicates 0 panels rv =
     rv @ '' '' @ or_chain (map equality_predicate panels)"
proof (cases panels)
  case Nil
  assume "panels \<noteq> []"
  with Nil show ?thesis by simp
next
  case (Cons n rest)
  have "query_predicates 0 (n # rest) rv =
      query_predicates (Suc 0) rest (rv @ '' '' @ equality_predicate n)"
    by (simp add: equality_predicate_def)
  also have "\<dots> = (rv @ '' '' @ equality_predicate n)
      @ concat (map (\<lambda>n. '' OR '' @ equality_predicate n) rest)"
    by (rule query_predicates_later) simp
  also have "\<dots> = rv @ '' '' @ or_chain (map equality_predicate (n # rest))"
    by (simp add: or_chain_Cons comp_def)
  finally show ?thesis using Cons by simp
qed

text \<open>
  C7. For a nonempty list of panel ids the query is the SELECT of the three columns, then
  \<open>WHERE\<close> and the OR-chain of one predicate \<open>panel_id = N\<close> per id, in the order
  supplied and with duplicates kept, then \<open>ORDER BY panel_id ASC;\<close>. For the empty list
  the query is the SELECT followed directly by the ORDER BY clause.
\<close>

theorem build_hardware_query_or_chain:
  "build_hardware_query [] =
     ''SELECT panel_id,missing_straws,missing_wires from qc.panels ORDER BY panel_id ASC;''
   \<and> (panels \<noteq> [] \<longrightarrow> build_hardware_query panels =
         ''SELECT panel_id,missing_straws,missing_wires from qc.panels''
         @ '' WHERE '' @ or_chain (map equality_predicate panels)
         @ '' ORDER BY panel_id ASC;'')"
proof
  show "build_hardware_query [] =
     ''SELECT panel_id,missing_straws,missing_wires from qc.panels ORDER BY panel_id ASC;''"
    by (simp add: build_hardware_query_def)
  show "panels \<noteq> [] \<longrightarrow> build_hardware_query panels =
         ''SELECT panel_id,missing_straws,missing_wires from qc.panels''
         @ '' WHERE '' @ or_chain (map equality_predicate panels)
         @ '' ORDER BY panel_id ASC;''"
  proof
    assume ne: "panels \<noteq> []"
    then have "0 < length panels" by simp
    then show "build_hardware_query panels =
         ''SELECT panel_id,missing_straws,missing_wires from qc.panels''
         @ '' WHERE '' @ or_chain (map equality_predicate panels)
         @ '' ORDER BY panel_id ASC;''"
      unfolding build_hardware_query_def Let_def
      by (simp only: if_True query_predicates_first [OF ne]) simp
  qed
qed

theorem build_hardware_query_or_chain_witness:
  "build_hardware_query [7, 12, 7] =
     ''SELECT panel_id,missing_straws,missing_wires from qc.panels WHERE panel_id = 7 OR panel_id = 12 OR panel_id = 7 ORDER BY panel_id ASC;''"
proof -
  have "[7, 12, 7 :: int] \<noteq> []" by simp
  then have "build_hardware_query [7, 12, 7] =
         ''SELECT panel_id,missing_straws,missing_wires from qc.panels''
         @ '' WHERE '' @ or_chain (map equality_predicate [7, 12, 7])
         @ '' ORDER BY panel_id ASC;''"
    using build_hardware_query_or_chain [of "[7, 12, 7]"] by blast
  then show ?thesis
    by (simp add: equality_predicate_def fmt_d_def str_nat.simps digit_char_def)
qed

section \<open>Claims about the Condition Reconciler\<close>

lemma str_nat_one_digit: "n < 10 \<Longrightarrow> str_nat n = [digit_char n]"
  by (subst str_nat.simps) simp

lemma str_nat_two_digits:
  "10 \<le> n \<Longrightarrow> n < 100 \<Longrightarrow> str_nat n = [digit_char (n div 10), digit_char (n mod 10)]"
  by (subst str_nat.simps) (simp add: str_nat_one_digit)

lemma str_nat_three_digits:
  assumes "100 \<le> n" and "n < 1000"
  shows "str_nat n = [digit_char (n div 100), digit_char (n div 10 mod 10), digit_char (n mod 10)]"
proof -
  have "10 \<le> n div 10" "n div 10 < 100" using assms by simp_all
  then have "str_nat (n div 10) = [digit_char (n div 10 div 10), digit_char (n div 10 mod 10)]"
    by (rule str_nat_two_digits)
  moreover have "n div 10 div 10 = n div 100" by (simp add: div_mult2_eq)
  ultimately show ?thesis
    using assms by (subst str_nat.simps) simp
qed

lemma fmt_03d_label:
  assumes "1 \<le> i" and "i \<le> 999"
  shows "KStr (''MN'' @ fmt_03d i) = synthetic_label (nat i)"
proof -
  let ?n = "nat i"
  have abs: "nat \<bar>i\<bar> = ?n" "\<not> i < 0" using assms by simp_all
  consider "?n < 10" | "10 \<le> ?n \<and> ?n < 100" | "100 \<le> ?n \<and> ?n < 1000"
    using assms by linarith
  then show ?thesis
  proof cases
    case 1
    then have "?n div 100 = 0" "?n div 10 mod 10 = 0" "?n mod 10 = ?n" by simp_all
    then show ?thesis
      using 1 abs by (simp add: fmt_03d_def synthetic_label_def str_nat_one_digit
          digit_char_def numeral_2_eq_2)
  next
    case 2
    then have "?n < 10 * 10" by simp
    then have "?n div 10 < 10" by (simp only: div_less_iff_less_mult [OF zero_less_numeral] mult.commute)
    then have "?n div 100 = 0" "?n div 10 mod 10 = ?n div 10" using 2 by simp_all
    then show ?thesis
      using 2 abs by (simp add: fmt_03d_def synthetic_label_def str_nat_two_digits digit_char_def)
  next
    case 3
    then show ?thesis
      using abs by (simp add: fmt_03d_def synthetic_label_def str_nat_three_digits)
  qed
qed

lemma default_allowed_range: "set default_allowed = synthetic_label ` {1..999}"
proof -
  have "set default_allowed = (\<lambda>i. KStr (''MN'' @ fmt_03d i)) ` {1..999}"
    by (simp only: default_allowed_def set_map set_upto)
  also have "\<dots> = (\<lambda>i. synthetic_label (nat i)) ` {1..999}"
  proof (rule image_cong)
    fix x :: int
    assume "x \<in> {1..999}"
    then show "KStr (''MN'' @ fmt_03d x) = synthetic_label (nat x)"
      using fmt_03d_label [of x] by simp
  qed simp
  also have "\<dots> = synthetic_label ` (nat ` {1..999})"
    by (simp add: image_image)
  also have "nat ` {1..999 :: int} = {1..999 :: nat}"
  proof (rule set_eqI)
    fix n :: nat
    show "n \<in> nat ` {1..999 :: int} \<longleftrightarrow> n \<in> {1..999}"
    proof
      assume "n \<in> nat ` {1..999 :: int}"
      then show "n \<in> {1..999}" by auto
    next
      assume "n \<in> {1..999}"
      then have "int n \<in> {1..999}" "n = nat (int n)" by auto
      then show "n \<in> nat ` {1..999 :: int}" by blast
    qed
  qed
  finally show ?thesis .
qed

lemma reconcile_keys:
  "map fst (reconcile m h allowed) =
     filter (\<lambda>k. k \<in> set (case allowed of None \<Rightarrow> default_allowed | Some a \<Rightarrow> a))
       (remdups (map fst m @ map fst h))"
  by (simp add: reconcile_def Let_def comp_def)

lemma reconcile_distinct: "distinct (map fst (reconcile m h allowed))"
  by (simp only: reconcile_keys) simp

lemma reconcile_key_set:
  "fst ` set (reconcile m h allowed) =
     (fst ` set m \<union> fst ` set h)
       \<inter> set (case allowed of None \<Rightarrow> default_allowed | Some a \<Rightarrow> a)"
proof -
  have "fst ` set (reconcile m h allowed) = set (map fst (reconcile m h allowed))"
    by simp
  also have "\<dots> = (fst ` set m \<union> fst ` set h)
       \<inter> set (case allowed of None \<Rightarrow> default_allowed | Some a \<Rightarrow> a)"
    by (simp only: reconcile_keys) auto
  finally show ?thesis .
qed

lemma map_of_graph:
  "map_of (map (\<lambda>k. (k, f k)) ks) k = (if k \<in> set ks then Some (f k) else None)"
  by (induction ks) simp_all

lemma reconcile_lookup:
  "map_of (reconcile m h allowed) label =
     (if label \<in> fst ` set (reconcile m h allowed)
      then Some (fields_of m label ++ fields_of h label) else None)"
proof -
  let ?keys = "filter (\<lambda>k. k \<in> set (case allowed of None \<Rightarrow> default_allowed | Some a \<Rightarrow> a))
       (remdups (map fst m @ map fst h))"
  have r: "reconcile m h allowed = map (\<lambda>key. (key, merged_record m h key)) ?keys"
    by (simp add: reconcile_def Let_def)
  have "fst ` set (reconcile m h allowed) = set ?keys"
    using reconcile_keys [of m h allowed] by (metis list.set_map)
  moreover have "merged_record m h label = fields_of m label ++ fields_of h label"
    by (simp add: merged_record_def fields_of_def Let_def split: option.splits)
  ultimately show ?thesis
    by (simp only: r map_of_graph)
qed

text \<open>
  C3. The key set of the reconciled mapping is the union of the Navigator's and the
  Fetcher's key sets intersected with the allowed set, and the allowed set used when none
  is given is the range \<open>MN001\<close> to \<open>MN999\<close>. So a label outside the allowed set is never
  in the output, even when both sources have it, and a label of the allowed set that
  neither source has is never in the output.
\<close>

theorem reconcile_keys_are_union_within_allowed:
  "fst ` set (reconcile navigator fetcher (Some allowed))
     = (fst ` set navigator \<union> fst ` set fetcher) \<inter> set allowed
   \<and> fst ` set (reconcile navigator fetcher None)
     = (fst ` set navigator \<union> fst ` set fetcher) \<inter> synthetic_label ` {1..999}
   \<and> (label \<notin> set allowed \<longrightarrow> label \<notin> fst ` set (reconcile navigator fetcher (Some allowed)))
   \<and> (label \<notin> fst ` set navigator \<and> label \<notin> fst ` set fetcher
        \<longrightarrow> label \<notin> fst ` set (reconcile navigator fetcher (Some allowed))
          \<and> label \<notin> fst ` set (reconcile navigator fetcher None))"
proof -
  have some: "fst ` set (reconcile navigator fetcher (Some allowed))
     = (fst ` set navigator \<union> fst ` set fetcher) \<inter> set allowed"
    using reconcile_key_set [of navigator fetcher "Some allowed"] by simp
  have none: "fst ` set (reconcile navigator fetcher None)
     = (fst ` set navigator \<union> fst ` set fetcher) \<inter> synthetic_label ` {1..999}"
    using reconcile_key_set [of navigator fetcher None] by (simp add: default_allowed_range)
  show ?thesis
    unfolding some none by blast
qed

theorem reconcile_keys_are_union_within_allowed_witness:
  "KStr ''MN002'' \<notin> fst ` set (reconcile
      [(KStr ''MN001'', [''readout_disabled'' \<mapsto> [3]]), (KStr ''MN002'', [''readout_disabled'' \<mapsto> []])]
      [(KStr ''MN002'', [''missing_straws'' \<mapsto> [1], ''missing_wires'' \<mapsto> []])]
      (Some [KStr ''MN001'', KStr ''MN003'']))
   \<and> fst ` set (reconcile
      [(KStr ''MN001'', [''readout_disabled'' \<mapsto> [3]]), (KStr ''MN002'', [''readout_disabled'' \<mapsto> []])]
      [(KStr ''MN002'', [''missing_straws'' \<mapsto> [1], ''missing_wires'' \<mapsto> []])]
      (Some [KStr ''MN001'', KStr ''MN003''])) = {KStr ''MN001''}"
proof -
  let ?n = "[(KStr ''MN001'', [''readout_disabled'' \<mapsto> [3]]),
             (KStr ''MN002'', [''readout_disabled'' \<mapsto> []])] :: conditions"
  let ?f = "[(KStr ''MN002'', [''missing_straws'' \<mapsto> [1], ''missing_wires'' \<mapsto> []])] :: conditions"
  let ?a = "[KStr ''MN001'', KStr ''MN003'']"
  note th = reconcile_keys_are_union_within_allowed [of ?n ?f ?a "KStr ''MN002''"]
  have out: "KStr ''MN002'' \<notin> set ?a" by simp
  have a: "fst ` set (reconcile ?n ?f (Some ?a)) = (fst ` set ?n \<union> fst ` set ?f) \<inter> set ?a"
    by (rule th [THEN conjunct1])
  have b: "KStr ''MN002'' \<notin> fst ` set (reconcile ?n ?f (Some ?a))"
    using th [THEN conjunct2, THEN conjunct2, THEN conjunct1] out by (rule mp)
  have c: "(fst ` set ?n \<union> fst ` set ?f) \<inter> set ?a = {KStr ''MN001''}"
    by simp
  show ?thesis using a b c by simp
qed

text \<open>
  C4. For a label of the output, the merged record is the Navigator's fields for the label
  overlaid by the Fetcher's. A label only one source has gets exactly that source's
  record; a label both have gets the union of their fields, and a field both records
  name takes the Fetcher's value.
\<close>

theorem reconcile_record_is_overlay:
  assumes "label \<in> fst ` set (reconcile navigator fetcher allowed)"
  shows "map_of (reconcile navigator fetcher allowed) label
           = Some (fields_of navigator label ++ fields_of fetcher label)
    \<and> (label \<notin> fst ` set fetcher
         \<longrightarrow> map_of (reconcile navigator fetcher allowed) label = map_of navigator label)
    \<and> (label \<notin> fst ` set navigator
         \<longrightarrow> map_of (reconcile navigator fetcher allowed) label = map_of fetcher label)
    \<and> (\<forall>a b. map_of navigator label = Some a \<and> map_of fetcher label = Some b
         \<longrightarrow> (\<exists>r. map_of (reconcile navigator fetcher allowed) label = Some r
                \<and> dom r = dom a \<union> dom b
                \<and> (\<forall>field. field \<in> dom b \<longrightarrow> r field = b field)
                \<and> (\<forall>field. field \<notin> dom b \<longrightarrow> r field = a field)))"
proof -
  have look: "map_of (reconcile navigator fetcher allowed) label
           = Some (fields_of navigator label ++ fields_of fetcher label)"
    using assms by (simp add: reconcile_lookup)
  have src: "label \<in> fst ` set navigator \<or> label \<in> fst ` set fetcher"
    using assms reconcile_key_set [of navigator fetcher allowed] by blast
  have absent: "\<And>source. label \<notin> fst ` set source \<Longrightarrow> fields_of source label = Map.empty"
  proof -
    fix source :: conditions
    assume "label \<notin> fst ` set source"
    then have "map_of source label = None" by (simp add: map_of_eq_None_iff)
    then show "fields_of source label = Map.empty" by (simp add: fields_of_def)
  qed
  have present: "\<And>source. label \<in> fst ` set source \<Longrightarrow>
      Some (fields_of source label) = map_of source label"
  proof -
    fix source :: conditions
    assume "label \<in> fst ` set source"
    then obtain r where "map_of source label = Some r"
      by (metis map_of_eq_None_iff option.exhaust)
    then show "Some (fields_of source label) = map_of source label"
      by (simp add: fields_of_def)
  qed
  have only_n: "label \<notin> fst ` set fetcher
         \<longrightarrow> map_of (reconcile navigator fetcher allowed) label = map_of navigator label"
  proof
    assume nf: "label \<notin> fst ` set fetcher"
    then have "label \<in> fst ` set navigator" using src by blast
    then show "map_of (reconcile navigator fetcher allowed) label = map_of navigator label"
      using look absent [OF nf] present [of navigator] by simp
  qed
  have only_f: "label \<notin> fst ` set navigator
         \<longrightarrow> map_of (reconcile navigator fetcher allowed) label = map_of fetcher label"
  proof
    assume nn: "label \<notin> fst ` set navigator"
    then have "label \<in> fst ` set fetcher" using src by blast
    then show "map_of (reconcile navigator fetcher allowed) label = map_of fetcher label"
      using look absent [OF nn] present [of fetcher] by simp
  qed
  have both: "\<forall>a b. map_of navigator label = Some a \<and> map_of fetcher label = Some b
         \<longrightarrow> (\<exists>r. map_of (reconcile navigator fetcher allowed) label = Some r
                \<and> dom r = dom a \<union> dom b
                \<and> (\<forall>field. field \<in> dom b \<longrightarrow> r field = b field)
                \<and> (\<forall>field. field \<notin> dom b \<longrightarrow> r field = a field))"
  proof (intro allI impI)
    fix a b
    assume ab: "map_of navigator label = Some a \<and> map_of fetcher label = Some b"
    then have "map_of (reconcile navigator fetcher allowed) label = Some (a ++ b)"
      using look by (simp add: fields_of_def)
    moreover have "dom (a ++ b) = dom a \<union> dom b" by auto
    moreover have "\<forall>field. field \<in> dom b \<longrightarrow> (a ++ b) field = b field"
      by (auto simp: map_add_def split: option.splits)
    moreover have "\<forall>field. field \<notin> dom b \<longrightarrow> (a ++ b) field = a field"
      by (auto simp: map_add_def split: option.splits)
    ultimately show "\<exists>r. map_of (reconcile navigator fetcher allowed) label = Some r
                \<and> dom r = dom a \<union> dom b
                \<and> (\<forall>field. field \<in> dom b \<longrightarrow> r field = b field)
                \<and> (\<forall>field. field \<notin> dom b \<longrightarrow> r field = a field)"
      by blast
  qed
  show ?thesis using look only_n only_f both by blast
qed

theorem reconcile_record_is_overlay_witness:
  "map_of (reconcile
      [(KStr ''MN001'', [''readout_disabled'' \<mapsto> [3], ''missing_wires'' \<mapsto> [9]])]
      [(KStr ''MN001'', [''missing_straws'' \<mapsto> [1], ''missing_wires'' \<mapsto> []])]
      (Some [KStr ''MN001''])) (KStr ''MN001'')
   = Some [''readout_disabled'' \<mapsto> [3], ''missing_straws'' \<mapsto> [1], ''missing_wires'' \<mapsto> []]"
proof -
  let ?n = "[(KStr ''MN001'', [''readout_disabled'' \<mapsto> [3], ''missing_wires'' \<mapsto> [9]])] :: conditions"
  let ?f = "[(KStr ''MN001'', [''missing_straws'' \<mapsto> [1], ''missing_wires'' \<mapsto> []])] :: conditions"
  let ?a = "Some [KStr ''MN001'']"
  have mem: "KStr ''MN001'' \<in> fst ` set (reconcile ?n ?f ?a)"
    by (simp add: reconcile_def)
  have "map_of (reconcile ?n ?f ?a) (KStr ''MN001'')
      = Some (fields_of ?n (KStr ''MN001'') ++ fields_of ?f (KStr ''MN001''))"
    using reconcile_record_is_overlay [OF mem] by blast
  also have "fields_of ?n (KStr ''MN001'') ++ fields_of ?f (KStr ''MN001'')
      = [''readout_disabled'' \<mapsto> [3], ''missing_straws'' \<mapsto> [1], ''missing_wires'' \<mapsto> []]"
    by (auto simp: fields_of_def map_add_def fun_eq_iff)
  finally show ?thesis .
qed

section \<open>Claims about the Hardware Condition Fetcher\<close>

lemma unfiltered_query:
  "build_hardware_query [] =
     ''SELECT panel_id,missing_straws,missing_wires from qc.panels ORDER BY panel_id ASC;''"
  by (simp add: build_hardware_query_def)

lemma hardware_statements:
  "fst (get_hardware_conditions env host port user db run) =
     (case pg_connect env (''host='' @ host @ '' port='' @ fmt_d port @ '' user='' @ user
                            @ '' dbname='' @ db) of
        Inl e \<Rightarrow> []
      | Inr cursor_execute \<Rightarrow> [build_hardware_query []])"
  by (simp add: get_hardware_conditions_def Let_def split: sum.splits)

lemma hardware_result_needs_connection:
  "snd (get_hardware_conditions env host port user db run) = Inr h \<Longrightarrow>
     fst (get_hardware_conditions env host port user db run) = [build_hardware_query []]"
  by (auto simp: get_hardware_conditions_def Let_def split: sum.splits)

lemma get_conditions_statements:
  "fst (get_conditions env run config allowed) =
     (case get_midas_conditions env (midas_host config) (midas_base config)
             (midas_pattern config) run of
        Inl e \<Rightarrow> []
      | Inr midas_conditions \<Rightarrow>
          fst (get_hardware_conditions env (pg_host config) (pg_port config)
                 (pg_user config) (pg_db config) run))"
  by (simp add: get_conditions_def split: sum.splits prod.splits)

text \<open>
  C9. \<^verbatim>\<open>get_hardware_conditions\<close> takes no panel filter and passes to the cursor one statement
  at most, the query built from the empty list, which has no WHERE clause: that statement
  is sent whenever the connection opens, and whenever rows come back. Within
  \<^verbatim>\<open>get_conditions\<close> the statements sent are the same for every panel filter, and the filter
  acts only as the allowed set of the reconciliation of the unfiltered rows.
\<close>

theorem hardware_query_is_unfiltered:
  "set (fst (get_hardware_conditions env host port user db run))
     \<subseteq> {''SELECT panel_id,missing_straws,missing_wires from qc.panels ORDER BY panel_id ASC;''}
   \<and> (\<forall>cursor_execute.
         pg_connect env (''host='' @ host @ '' port='' @ fmt_d port @ '' user='' @ user
                          @ '' dbname='' @ db) = Inr cursor_execute
         \<longrightarrow> get_hardware_conditions env host port user db run
             = ([''SELECT panel_id,missing_straws,missing_wires from qc.panels ORDER BY panel_id ASC;''],
                case cursor_execute
                  ''SELECT panel_id,missing_straws,missing_wires from qc.panels ORDER BY panel_id ASC;'' of
                  Inl e \<Rightarrow> Inl e | Inr rows \<Rightarrow> Inr (hardware_rows rows [])))
   \<and> (\<forall>h. snd (get_hardware_conditions env host port user db run) = Inr h
         \<longrightarrow> fst (get_hardware_conditions env host port user db run)
             = [''SELECT panel_id,missing_straws,missing_wires from qc.panels ORDER BY panel_id ASC;''])
   \<and> fst (get_conditions env run config allowed) = fst (get_conditions env run config allowed')
   \<and> set (fst (get_conditions env run config allowed))
     \<subseteq> {''SELECT panel_id,missing_straws,missing_wires from qc.panels ORDER BY panel_id ASC;''}
   \<and> (\<forall>navigator sent fetcher.
         get_midas_conditions env (midas_host config) (midas_base config)
           (midas_pattern config) run = Inr navigator
         \<and> get_hardware_conditions env (pg_host config) (pg_port config)
             (pg_user config) (pg_db config) run = (sent, Inr fetcher)
         \<longrightarrow> get_conditions env run config allowed
               = (sent, Inr (reconcile navigator fetcher allowed)))"
proof (intro conjI allI impI)
  let ?q = "''SELECT panel_id,missing_straws,missing_wires from qc.panels ORDER BY panel_id ASC;''"
  show sub: "\<And>host port user db. set (fst (get_hardware_conditions env host port user db run)) \<subseteq> {?q}"
    by (simp only: hardware_statements unfiltered_query split: sum.splits) simp
  show "set (fst (get_conditions env run config allowed)) \<subseteq> {?q}"
    using sub by (simp only: get_conditions_statements split: sum.splits) simp
  show "fst (get_conditions env run config allowed) = fst (get_conditions env run config allowed')"
    by (simp only: get_conditions_statements)
next
  fix cursor_execute
  assume "pg_connect env (''host='' @ host @ '' port='' @ fmt_d port @ '' user='' @ user
                          @ '' dbname='' @ db) = Inr cursor_execute"
  then show "get_hardware_conditions env host port user db run
             = ([''SELECT panel_id,missing_straws,missing_wires from qc.panels ORDER BY panel_id ASC;''],
                case cursor_execute
                  ''SELECT panel_id,missing_straws,missing_wires from qc.panels ORDER BY panel_id ASC;'' of
                  Inl e \<Rightarrow> Inl e | Inr rows \<Rightarrow> Inr (hardware_rows rows []))"
    by (simp add: get_hardware_conditions_def Let_def unfiltered_query)
next
  fix h
  assume "snd (get_hardware_conditions env host port user db run) = Inr h"
  then show "fst (get_hardware_conditions env host port user db run)
             = [''SELECT panel_id,missing_straws,missing_wires from qc.panels ORDER BY panel_id ASC;'']"
    using hardware_result_needs_connection [of env host port user db run h]
    by (simp only: unfiltered_query)
next
  fix navigator sent fetcher
  assume "get_midas_conditions env (midas_host config) (midas_base config)
           (midas_pattern config) run = Inr navigator
         \<and> get_hardware_conditions env (pg_host config) (pg_port config)
             (pg_user config) (pg_db config) run = (sent, Inr fetcher)"
  then show "get_conditions env run config allowed
               = (sent, Inr (reconcile navigator fetcher allowed))"
    by (simp add: get_conditions_def)
qed

theorem hardware_query_is_unfiltered_witness:
  "get_hardware_conditions
     \<lparr>path_join = (\<lambda>base name. base @ ''/'' @ name), percent_run = (\<lambda>pattern run. Inr pattern),
      check_output = (\<lambda>tokens. Inr []), lz4_decompress = Inr, bytes_decode = (\<lambda>buff. Inr []),
      json_loads = (\<lambda>buff. Inr JNull),
      pg_connect = (\<lambda>dsn. Inr (\<lambda>query. Inr [(5, [3, 7], [])]))\<rparr>
     ''dbhost'' 5432 ''reader'' ''qc'' 1
   = ([''SELECT panel_id,missing_straws,missing_wires from qc.panels ORDER BY panel_id ASC;''],
      Inr [(KStr ''MN005'', [''missing_straws'' \<mapsto> [3, 7], ''missing_wires'' \<mapsto> []])])"
proof -
  let ?cur = "(\<lambda>query. Inr [(5, [3, 7], [])]) :: string \<Rightarrow> exn + row list"
  let ?env = "\<lparr>path_join = (\<lambda>base name. base @ ''/'' @ name), percent_run = (\<lambda>pattern run. Inr pattern),
      check_output = (\<lambda>tokens. Inr []), lz4_decompress = Inr, bytes_decode = (\<lambda>buff. Inr []),
      json_loads = (\<lambda>buff. Inr JNull),
      pg_connect = (\<lambda>dsn. Inr ?cur)\<rparr>"
  note th = hardware_query_is_unfiltered [of ?env "''dbhost''" 5432 "''reader''" "''qc''" 1]
  have conn: "pg_connect ?env (''host='' @ ''dbhost'' @ '' port='' @ fmt_d 5432 @ '' user=''
      @ ''reader'' @ '' dbname='' @ ''qc'') = Inr ?cur"
    by simp
  have "get_hardware_conditions ?env ''dbhost'' 5432 ''reader'' ''qc'' 1
      = ([''SELECT panel_id,missing_straws,missing_wires from qc.panels ORDER BY panel_id ASC;''],
         case ?cur
           ''SELECT panel_id,missing_straws,missing_wires from qc.panels ORDER BY panel_id ASC;'' of
           Inl e \<Rightarrow> Inl e | Inr rows \<Rightarrow> Inr (hardware_rows rows []))"
    using th [THEN conjunct2, THEN conjunct1, THEN spec, of ?cur] conn by (rule mp)
  moreover have "fmt_03d 5 = ''005''"
    by (simp add: fmt_03d_def str_nat.simps digit_char_def numeral_2_eq_2)
  ultimately show ?thesis by simp
qed

section \<open>Claims about the Table Emitter\<close>

lemma write_panels_ok:
  "\<forall>p \<in> set conditions. geography (fst p) \<noteq> None \<and> snd p lookup \<noteq> None \<Longrightarrow>
     write_panels geography label lookup conditions out =
       (out @ concat (map (panel_lines geography label lookup) conditions), None)"
  by (induction conditions arbitrary: out) (auto simp: panel_lines_def)

lemma write_panels_fail:
  "\<not> (\<forall>p \<in> set conditions. geography (fst p) \<noteq> None \<and> snd p lookup \<noteq> None) \<Longrightarrow>
     \<exists>out' k. write_panels geography label lookup conditions out = (out', Some (KeyError k))"
proof (induction conditions arbitrary: out)
  case Nil
  then show ?case by simp
next
  case (Cons p rest)
  obtain minnesota collections where p: "p = (minnesota, collections)" by (cases p)
  show ?case
  proof (cases "geography minnesota")
    case None
    then show ?thesis using p by simp
  next
    case (Some coordinate)
    obtain plane panel where c: "coordinate = (plane, panel)" by (cases coordinate)
    show ?thesis
    proof (cases "collections lookup")
      case None
      then show ?thesis using p Some c by simp
    next
      case (Some straws)
      then have "\<not> (\<forall>p \<in> set rest. geography (fst p) \<noteq> None \<and> snd p lookup \<noteq> None)"
        using Cons.prems p \<open>geography minnesota = Some coordinate\<close> by simp
      then show ?thesis
        using Cons.IH Some p \<open>geography minnesota = Some coordinate\<close> c by simp
    qed
  qed
qed

lemma write_criteria_ok:
  "\<forall>e \<in> set criteria. \<forall>p \<in> set conditions. geography (fst p) \<noteq> None \<and> snd p (snd e) \<noteq> None \<Longrightarrow>
     write_criteria conditions geography criteria out =
       (out @ level_lines conditions geography criteria, None)"
proof (induction criteria arbitrary: out)
  case Nil
  then show ?case by (simp add: level_lines_def)
next
  case (Cons e rest)
  obtain label lookup where e: "e = (label, lookup)" by (cases e)
  have "\<forall>p \<in> set conditions. geography (fst p) \<noteq> None \<and> snd p lookup \<noteq> None"
    using Cons.prems e by simp
  then have "write_panels geography label lookup conditions out =
       (out @ concat (map (panel_lines geography label lookup) conditions), None)"
    by (rule write_panels_ok)
  moreover have "write_criteria conditions geography rest
        (out @ concat (map (panel_lines geography label lookup) conditions)) =
       ((out @ concat (map (panel_lines geography label lookup) conditions))
          @ level_lines conditions geography rest, None)"
    using Cons.prems by (intro Cons.IH) simp
  ultimately show ?case
    using e by (simp add: level_lines_def)
qed

lemma write_criteria_fail:
  "\<not> (\<forall>e \<in> set criteria. \<forall>p \<in> set conditions.
        geography (fst p) \<noteq> None \<and> snd p (snd e) \<noteq> None) \<Longrightarrow>
     \<exists>out' k. write_criteria conditions geography criteria out = (out', Some (KeyError k))"
proof (induction criteria arbitrary: out)
  case Nil
  then show ?case by simp
next
  case (Cons e rest)
  obtain label lookup where e: "e = (label, lookup)" by (cases e)
  show ?case
  proof (cases "\<forall>p \<in> set conditions. geography (fst p) \<noteq> None \<and> snd p lookup \<noteq> None")
    case True
    then have "write_panels geography label lookup conditions out =
       (out @ concat (map (panel_lines geography label lookup) conditions), None)"
      by (rule write_panels_ok)
    moreover have "\<not> (\<forall>e \<in> set rest. \<forall>p \<in> set conditions.
        geography (fst p) \<noteq> None \<and> snd p (snd e) \<noteq> None)"
      using Cons.prems True e by simp
    ultimately show ?thesis
      using Cons.IH e by simp
  next
    case False
    then obtain out' k where
      "write_panels geography label lookup conditions out = (out', Some (KeyError k))"
      using write_panels_fail by blast
    then show ?thesis using e by simp
  qed
qed

lemma write_levels_ok:
  "\<forall>l \<in> set scheme. \<forall>e \<in> set (snd l). \<forall>p \<in> set conditions.
      geography (fst p) \<noteq> None \<and> snd p (snd e) \<noteq> None \<Longrightarrow>
     write_levels conditions geography scheme out =
       (out @ table_lines conditions geography scheme, None)"
proof (induction scheme arbitrary: out)
  case Nil
  then show ?case by (simp add: table_lines_def)
next
  case (Cons l rest)
  obtain level criteria where l: "l = (level, criteria)" by (cases l)
  have "\<forall>e \<in> set criteria. \<forall>p \<in> set conditions. geography (fst p) \<noteq> None \<and> snd p (snd e) \<noteq> None"
    using Cons.prems l by simp
  then have "write_criteria conditions geography criteria (out @ [level]) =
       ((out @ [level]) @ level_lines conditions geography criteria, None)"
    by (rule write_criteria_ok)
  moreover have "write_levels conditions geography rest
        ((out @ [level]) @ level_lines conditions geography criteria) =
       (((out @ [level]) @ level_lines conditions geography criteria)
          @ table_lines conditions geography rest, None)"
    using Cons.prems by (intro Cons.IH) simp
  ultimately show ?case
    using l by (simp add: table_lines_def)
qed

lemma write_levels_fail:
  "\<not> (\<forall>l \<in> set scheme. \<forall>e \<in> set (snd l). \<forall>p \<in> set conditions.
        geography (fst p) \<noteq> None \<and> snd p (snd e) \<noteq> None) \<Longrightarrow>
     \<exists>out' k. write_levels conditions geography scheme out = (out', Some (KeyError k))"
proof (induction scheme arbitrary: out)
  case Nil
  then show ?case by simp
next
  case (Cons l rest)
  obtain level criteria where l: "l = (level, criteria)" by (cases l)
  show ?case
  proof (cases "\<forall>e \<in> set criteria. \<forall>p \<in> set conditions.
        geography (fst p) \<noteq> None \<and> snd p (snd e) \<noteq> None")
    case True
    then have "write_criteria conditions geography criteria (out @ [level]) =
       ((out @ [level]) @ level_lines conditions geography criteria, None)"
      by (rule write_criteria_ok)
    moreover have "\<not> (\<forall>l \<in> set rest. \<forall>e \<in> set (snd l). \<forall>p \<in> set conditions.
        geography (fst p) \<noteq> None \<and> snd p (snd e) \<noteq> None)"
    proof
      assume "\<forall>l \<in> set rest. \<forall>e \<in> set (snd l). \<forall>p \<in> set conditions.
        geography (fst p) \<noteq> None \<and> snd p (snd e) \<noteq> None"
      then have "\<forall>l \<in> set (l # rest). \<forall>e \<in> set (snd l). \<forall>p \<in> set conditions.
        geography (fst p) \<noteq> None \<and> snd p (snd e) \<noteq> None"
        using True l by (simp only: list.set ball_simps snd_conv)
      then show False using Cons.prems by blast
    qed
    ultimately show ?thesis
      using Cons.IH l by simp
  next
    case False
    then obtain out' k where
      "write_criteria conditions geography criteria (out @ [level]) = (out', Some (KeyError k))"
      using write_criteria_fail by blast
    then show ?thesis using l by simp
  qed
qed

lemma length_panel_lines:
  "geography (fst p) \<noteq> None \<Longrightarrow>
     length (panel_lines geography label lookup p) = field_length (snd p) lookup"
  by (auto simp: panel_lines_def field_length_def split: option.splits)

lemma length_level_lines:
  assumes "\<forall>p \<in> set conditions. geography (fst p) \<noteq> None"
  shows "length (level_lines conditions geography criteria) =
     sum_list (map (\<lambda>(label, lookup).
        sum_list (map (\<lambda>(minnesota, collections). field_length collections lookup) conditions))
       criteria)"
proof -
  have inner: "\<And>label lookup.
      length (concat (map (panel_lines geography label lookup) conditions)) =
      sum_list (map (\<lambda>(minnesota, collections). field_length collections lookup) conditions)"
  proof -
    fix label lookup
    have "map (length \<circ> panel_lines geography label lookup) conditions =
        map (\<lambda>(minnesota, collections). field_length collections lookup) conditions"
      using assms by (intro map_cong) (auto simp: length_panel_lines)
    moreover have "length (concat (map (panel_lines geography label lookup) conditions)) =
        sum_list (map (length \<circ> panel_lines geography label lookup) conditions)"
      by (simp only: length_concat map_map)
    ultimately show "length (concat (map (panel_lines geography label lookup) conditions)) =
      sum_list (map (\<lambda>(minnesota, collections). field_length collections lookup) conditions)"
      by (simp only:)
  qed
  show ?thesis
    by (induction criteria) (auto simp: level_lines_def inner)
qed

lemma all_lookups_succeed_iff:
  "(\<forall>(level, criteria) \<in> set scheme. \<forall>(label, lookup) \<in> set criteria.
      \<forall>(minnesota, collections) \<in> set conditions.
        geography minnesota \<noteq> None \<and> collections lookup \<noteq> None)
   \<longleftrightarrow> (\<forall>l \<in> set scheme. \<forall>e \<in> set (snd l). \<forall>p \<in> set conditions.
        geography (fst p) \<noteq> None \<and> snd p (snd e) \<noteq> None)"
  by (simp only: case_prod_unfold)

text \<open>
  C8 as stated fails: a record of the merged mapping need not hold every field the scheme
  names. Below, the map covers both labels and panel \<open>MN005\<close> has two missing straws, but
  panel \<open>MN001\<close> came from the Navigator alone and has no \<open>missing_straws\<close> field: the
  run stops with a key error after the first header line, with no data line under it.
\<close>

theorem emitter_missing_field_counterexample:
  "write_offline_table
      [(KStr ''MN001'', [''readout_disabled'' \<mapsto> [1]]),
       (KStr ''MN005'', [''missing_straws'' \<mapsto> [3, 7], ''missing_wires'' \<mapsto> []])]
      [KStr ''MN001'' \<mapsto> (0, 0), KStr ''MN005'' \<mapsto> (1, 2)]
      status_levels
     = ([''TrkStrawStatusLong''], Some (KeyError (KStr ''missing_straws'')))
   \<and> [KStr ''MN001'' \<mapsto> (0, 0), KStr ''MN005'' \<mapsto> (1, 2 :: int)] (KStr ''MN001'') = Some (0 :: int, 0)
   \<and> [KStr ''MN001'' \<mapsto> (0, 0), KStr ''MN005'' \<mapsto> (1, 2 :: int)] (KStr ''MN005'') = Some (1 :: int, 2)
   \<and> field_length [''missing_straws'' \<mapsto> [3, 7], ''missing_wires'' \<mapsto> []] ''missing_straws'' = 2"
  by (simp add: write_offline_table_def status_levels_def field_length_def)

text \<open>
  C8 as amended. When the map covers the labels of the merged mapping and every record
  holds every source field the scheme names, the emitter completes and writes, level by
  level, the header line and then one data line per declared pair, panel and index; the
  number of data lines under a level is the sum, over the level's declared fields and over
  all panels, of the length of the panel's list for the field.
\<close>

theorem emitter_lines_per_level:
  assumes "\<forall>(minnesota, collections) \<in> set conditions. geography minnesota \<noteq> None"
    and "\<forall>(level, criteria) \<in> set scheme. \<forall>(label, lookup) \<in> set criteria.
           \<forall>(minnesota, collections) \<in> set conditions. collections lookup \<noteq> None"
  shows "write_offline_table conditions geography scheme
           = (table_lines conditions geography scheme, None)
    \<and> table_lines conditions geography scheme
           = concat (map (\<lambda>(level, criteria). level # level_lines conditions geography criteria)
                         scheme)
    \<and> (\<forall>(level, criteria) \<in> set scheme.
          length (level_lines conditions geography criteria)
            = sum_list (map (\<lambda>(label, lookup).
                sum_list (map (\<lambda>(minnesota, collections). field_length collections lookup)
                              conditions))
                criteria))"
proof (intro conjI)
  have cover: "\<forall>p \<in> set conditions. geography (fst p) \<noteq> None"
    using assms(1) by (simp only: case_prod_unfold)
  have fields: "\<forall>l \<in> set scheme. \<forall>e \<in> set (snd l). \<forall>p \<in> set conditions. snd p (snd e) \<noteq> None"
    using assms(2) by (simp only: case_prod_unfold)
  have "\<forall>l \<in> set scheme. \<forall>e \<in> set (snd l). \<forall>p \<in> set conditions.
        geography (fst p) \<noteq> None \<and> snd p (snd e) \<noteq> None"
    using cover fields by blast
  then have "write_levels conditions geography scheme [] =
      ([] @ table_lines conditions geography scheme, None)"
    by (rule write_levels_ok)
  then show "write_offline_table conditions geography scheme
           = (table_lines conditions geography scheme, None)"
    by (simp add: write_offline_table_def)
  show "table_lines conditions geography scheme
           = concat (map (\<lambda>(level, criteria). level # level_lines conditions geography criteria)
                         scheme)"
    by (simp only: table_lines_def)
  show "\<forall>(level, criteria) \<in> set scheme.
          length (level_lines conditions geography criteria)
            = sum_list (map (\<lambda>(label, lookup).
                sum_list (map (\<lambda>(minnesota, collections). field_length collections lookup)
                              conditions))
                criteria)"
    using length_level_lines [OF cover] by (simp add: case_prod_unfold)
qed

theorem emitter_lines_per_level_witness:
  "write_offline_table
      [(KStr ''MN005'', [''missing_straws'' \<mapsto> [3, 7], ''missing_wires'' \<mapsto> [],
                          ''readout_disabled'' \<mapsto> [0]])]
      [KStr ''MN005'' \<mapsto> (1, 2)]
      status_levels
     = ([''TrkStrawStatusLong'', ''1_2_3, Absent'', ''1_2_7, Absent'',
         ''TrkStrawStatusShort'', ''1_2_0, Disabled''], None)"
proof -
  let ?c = "[(KStr ''MN005'', [''missing_straws'' \<mapsto> [3, 7], ''missing_wires'' \<mapsto> [],
                          ''readout_disabled'' \<mapsto> [0]])] :: conditions"
  let ?g = "[KStr ''MN005'' \<mapsto> (1, 2)] :: geography"
  have cover: "\<forall>(minnesota, collections) \<in> set ?c. ?g minnesota \<noteq> None"
    by simp
  have fields: "\<forall>(level, criteria) \<in> set status_levels. \<forall>(label, lookup) \<in> set criteria.
           \<forall>(minnesota, collections) \<in> set ?c. collections lookup \<noteq> None"
    by (simp add: status_levels_def)
  have "write_offline_table ?c ?g status_levels = (table_lines ?c ?g status_levels, None)"
    using emitter_lines_per_level [OF cover fields] by (rule conjunct1)
  moreover have "table_lines ?c ?g status_levels =
      [''TrkStrawStatusLong'', ''1_2_3, Absent'', ''1_2_7, Absent'',
       ''TrkStrawStatusShort'', ''1_2_0, Disabled'']"
    by (simp add: table_lines_def level_lines_def panel_lines_def status_levels_def
        data_line_def fmt_d_def str_nat.simps digit_char_def)
  ultimately show ?thesis by (simp only:)
qed

text \<open>
  C10 as stated fails for a scheme that declares no pair of label and field: no lookup is
  made, so the run completes although the panel is absent from the map.
\<close>

theorem emitter_empty_scheme_counterexample:
  "write_offline_table [(KStr ''MN001'', [''readout_disabled'' \<mapsto> [1]])] Map.empty []
     = ([], None)
   \<and> (Map.empty :: geography) (KStr ''MN001'') = None"
  by (simp add: write_offline_table_def)

text \<open>
  C10 as amended. When the scheme declares at least one pair of label and field, the
  emitter completes without error only if every panel of the merged mapping is in the map
  and every record holds every field the scheme names. A panel absent from the map raises
  the key error of its label, a record that lacks the field of the current pair raises
  the key error of that field, and neither is skipped.
\<close>

theorem emitter_completes_only_if_lookups_succeed:
  "((\<exists>level criteria entry. (level, criteria) \<in> set scheme \<and> entry \<in> set criteria)
        \<and> snd (write_offline_table conditions geography scheme) = None
      \<longrightarrow> (\<forall>(minnesota, collections) \<in> set conditions. geography minnesota \<noteq> None)
        \<and> (\<forall>(level, criteria) \<in> set scheme. \<forall>(label, lookup) \<in> set criteria.
            \<forall>(minnesota, collections) \<in> set conditions. collections lookup \<noteq> None))
   \<and> (geography minnesota = None
        \<longrightarrow> write_panels geography label lookup ((minnesota, collections) # rest) out
            = (out, Some (KeyError minnesota)))
   \<and> (geography minnesota \<noteq> None \<and> collections lookup = None
        \<longrightarrow> write_panels geography label lookup ((minnesota, collections) # rest) out
            = (out, Some (KeyError (KStr lookup))))"
proof (intro conjI)
  let ?ok = "\<forall>l \<in> set scheme. \<forall>e \<in> set (snd l). \<forall>p \<in> set conditions.
        geography (fst p) \<noteq> None \<and> snd p (snd e) \<noteq> None"
  have only_if: "snd (write_offline_table conditions geography scheme) = None \<Longrightarrow> ?ok"
  proof (rule ccontr)
    assume completed: "snd (write_offline_table conditions geography scheme) = None"
    assume "\<not> ?ok"
    then obtain out' k where
      "write_levels conditions geography scheme [] = (out', Some (KeyError k))"
      using write_levels_fail [of scheme conditions geography "[]"] by blast
    then have "snd (write_offline_table conditions geography scheme) = Some (KeyError k)"
      by (simp add: write_offline_table_def)
    then show False using completed by simp
  qed
  show "(\<exists>level criteria entry. (level, criteria) \<in> set scheme \<and> entry \<in> set criteria)
        \<and> snd (write_offline_table conditions geography scheme) = None
      \<longrightarrow> (\<forall>(minnesota, collections) \<in> set conditions. geography minnesota \<noteq> None)
        \<and> (\<forall>(level, criteria) \<in> set scheme. \<forall>(label, lookup) \<in> set criteria.
            \<forall>(minnesota, collections) \<in> set conditions. collections lookup \<noteq> None)"
  proof
    assume a: "(\<exists>level criteria entry. (level, criteria) \<in> set scheme \<and> entry \<in> set criteria)
        \<and> snd (write_offline_table conditions geography scheme) = None"
    then have all: ?ok using only_if by blast
    from a obtain level criteria entry where
      e: "(level, criteria) \<in> set scheme" "entry \<in> set criteria" by blast
    have "\<forall>p \<in> set conditions. geography (fst p) \<noteq> None"
      using all e by fastforce
    moreover have "\<forall>l \<in> set scheme. \<forall>e \<in> set (snd l). \<forall>p \<in> set conditions.
        snd p (snd e) \<noteq> None"
      using all by blast
    ultimately show "(\<forall>(minnesota, collections) \<in> set conditions. geography minnesota \<noteq> None)
        \<and> (\<forall>(level, criteria) \<in> set scheme. \<forall>(label, lookup) \<in> set criteria.
            \<forall>(minnesota, collections) \<in> set conditions. collections lookup \<noteq> None)"
      by (simp only: case_prod_unfold)
  qed
  show "geography minnesota = None
        \<longrightarrow> write_panels geography label lookup ((minnesota, collections) # rest) out
            = (out, Some (KeyError minnesota))"
    by simp
  show "geography minnesota \<noteq> None \<and> collections lookup = None
        \<longrightarrow> write_panels geography label lookup ((minnesota, collections) # rest) out
            = (out, Some (KeyError (KStr lookup)))"
    by auto
qed

theorem emitter_completes_only_if_lookups_succeed_witness:
  "snd (write_offline_table
      [(KStr ''MN005'', [''missing_straws'' \<mapsto> [3, 7]])]
      [KStr ''MN005'' \<mapsto> (1, 2)]
      [(''TrkStrawStatusLong'', [(''Absent'', ''missing_straws'')])]) = None
   \<and> [KStr ''MN005'' \<mapsto> (1 :: int, 2 :: int)] (KStr ''MN005'') \<noteq> None
   \<and> [''missing_straws'' \<mapsto> [3, 7 :: int]] ''missing_straws'' \<noteq> None
   \<and> write_panels [KStr ''MN005'' \<mapsto> (1, 2)] ''NoWire'' ''missing_wires''
       [(KStr ''MN005'', [''missing_straws'' \<mapsto> [3, 7]])] [''TrkStrawStatusLong'']
     = ([''TrkStrawStatusLong''], Some (KeyError (KStr ''missing_wires'')))"
proof (intro conjI)
  let ?r = "[''missing_straws'' \<mapsto> [3, 7]] :: panel_record"
  let ?c = "[(KStr ''MN005'', ?r)] :: conditions"
  let ?g = "[KStr ''MN005'' \<mapsto> (1, 2)] :: geography"
  let ?s = "[(''TrkStrawStatusLong'', [(''Absent'', ''missing_straws'')])] :: scheme"
  show completed: "snd (write_offline_table ?c ?g ?s) = None"
    by (simp add: write_offline_table_def)
  have entry: "\<exists>level criteria entry. (level, criteria) \<in> set ?s \<and> entry \<in> set criteria"
    by auto
  have pre: "(\<forall>(minnesota, collections) \<in> set ?c. ?g minnesota \<noteq> None)
        \<and> (\<forall>(level, criteria) \<in> set ?s. \<forall>(label, lookup) \<in> set criteria.
            \<forall>(minnesota, collections) \<in> set ?c. collections lookup \<noteq> None)"
    using emitter_completes_only_if_lookups_succeed [of ?s ?c ?g, THEN conjunct1]
      conjI [OF entry completed]
    by (rule mp)
  show "?g (KStr ''MN005'') \<noteq> None"
    using pre [THEN conjunct1] by simp
  show "?r ''missing_straws'' \<noteq> None"
    using pre [THEN conjunct2] by simp
  have miss: "?g (KStr ''MN005'') \<noteq> None \<and> ?r ''missing_wires'' = None"
    by simp
  show "write_panels ?g ''NoWire'' ''missing_wires'' ?c [''TrkStrawStatusLong'']
     = ([''TrkStrawStatusLong''], Some (KeyError (KStr ''missing_wires'')))"
    using emitter_completes_only_if_lookups_succeed
      [of _ _ ?g "KStr ''MN005''" "''NoWire''" "''missing_wires''" ?r "[]" "[''TrkStrawStatusLong'']",
       THEN conjunct2, THEN conjunct2] miss
    by (rule mp)
qed

section \<open>The traversal visits the panel nodes in order\<close>

lemma bind_exn_Inr [simp]: "bind_exn (Inr x) f = f x"
  by (simp add: bind_exn_def)

lemma bind_exn_Inl [simp]: "bind_exn (Inl e) f = Inl e"
  by (simp add: bind_exn_def)

lemma bind_exn_eq_Inr:
  "bind_exn m f = Inr y \<longleftrightarrow> (\<exists>x. m = Inr x \<and> f x = Inr y)"
  by (cases m) simp_all

lemma bind_exn_assoc:
  "bind_exn (bind_exn m f) g = bind_exn m (\<lambda>x. bind_exn (f x) g)"
  by (cases m) simp_all

lemma visit_all_append:
  "visit_all rv (ps @ qs) = bind_exn (visit_all rv ps) (\<lambda>rv'. visit_all rv' qs)"
proof (induction ps arbitrary: rv)
  case Nil
  then show ?case by simp
next
  case (Cons vpn ps)
  show ?case
    by (cases "visit_panel rv vpn") (simp_all add: Cons.IH)
qed

lemma visit_panels_flat: "visit_panels rv panels = visit_all rv (panels_of_plane panels)"
proof (induction panels arbitrary: rv)
  case Nil
  then show ?case by (simp add: panels_of_plane_def)
next
  case (Cons p rest)
  obtain kpn vpn where p: "p = (kpn, vpn)" by (cases p)
  have rest: "\<And>rv'. visit_panels rv' rest = visit_all rv' (map snd (filter (\<lambda>(kpn, vpn). match_panel kpn) rest))"
    using Cons.IH by (simp add: panels_of_plane_def)
  show ?case
    unfolding p by (simp add: panels_of_plane_def rest)
qed

lemma items_dict: "is_dict v \<Longrightarrow> items v = Inr (dict_items v)"
  by (cases v) (simp_all add: is_dict_def items_def dict_items_def)

lemma items_Inr: "items v = Inr kvs \<Longrightarrow> is_dict v \<and> dict_items v = kvs"
  by (cases v) (simp_all add: is_dict_def items_def dict_items_def)

lemma visit_planes_flat:
  "plane_shaped planes \<Longrightarrow> visit_planes rv planes = visit_all rv (panels_of_station planes)"
proof (induction planes arbitrary: rv)
  case Nil
  then show ?case by (simp add: panels_of_station_def)
next
  case (Cons p rest)
  obtain kpl vpl where p: "p = (kpl, vpl)" by (cases p)
  have shaped: "plane_shaped rest" using Cons.prems by (simp add: plane_shaped_def)
  have rest: "\<And>rv'. visit_planes rv' rest = visit_all rv' (panels_of_station rest)"
    using Cons.IH [OF shaped] .
  show ?case
  proof (cases "match_plane kpl")
    case False
    then show ?thesis unfolding p by (simp add: rest panels_of_station_def)
  next
    case True
    then have "is_dict vpl" using Cons.prems p by (simp add: plane_shaped_def)
    then have it: "items vpl = Inr (dict_items vpl)" by (rule items_dict)
    have "panels_of_station ((kpl, vpl) # rest) =
        panels_of_plane (dict_items vpl) @ panels_of_station rest"
      using True by (simp add: panels_of_station_def)
    then show ?thesis
      unfolding p using True by (simp add: it rest visit_panels_flat visit_all_append)
  qed
qed

lemma visit_stations_flat:
  "tree_shaped stations \<Longrightarrow> visit_stations rv stations = visit_all rv (panel_nodes stations)"
proof (induction stations arbitrary: rv)
  case Nil
  then show ?case by (simp add: panel_nodes_def)
next
  case (Cons p rest)
  obtain kst vst where p: "p = (kst, vst)" by (cases p)
  have shaped: "tree_shaped rest" using Cons.prems by (simp add: tree_shaped_def)
  have rest: "\<And>rv'. visit_stations rv' rest = visit_all rv' (panel_nodes rest)"
    using Cons.IH [OF shaped] .
  show ?case
  proof (cases "match_station kst")
    case False
    then show ?thesis unfolding p by (simp add: rest panel_nodes_def)
  next
    case True
    then have d: "is_dict vst" "plane_shaped (dict_items vst)"
      using Cons.prems p by (simp_all add: tree_shaped_def)
    have it: "items vst = Inr (dict_items vst)" using d(1) by (rule items_dict)
    have "panel_nodes ((kst, vst) # rest) =
        panels_of_station (dict_items vst) @ panel_nodes rest"
      using True by (simp add: panel_nodes_def)
    then show ?thesis
      unfolding p using True
      by (simp add: it rest visit_planes_flat [OF d(2)] visit_all_append)
  qed
qed

lemma visit_planes_shaped: "visit_planes rv planes = Inr rv' \<Longrightarrow> plane_shaped planes"
proof (induction planes arbitrary: rv)
  case Nil
  then show ?case by (simp add: plane_shaped_def)
next
  case (Cons p rest)
  obtain kpl vpl where p: "p = (kpl, vpl)" by (cases p)
  show ?case
  proof (cases "match_plane kpl")
    case False
    then have "visit_planes rv rest = Inr rv'" using Cons.prems p by simp
    then have "plane_shaped rest" by (rule Cons.IH)
    then show ?thesis using False p by (simp add: plane_shaped_def)
  next
    case True
    then obtain panels rv1 where
      "items vpl = Inr panels" "visit_panels rv panels = Inr rv1" "visit_planes rv1 rest = Inr rv'"
      using Cons.prems p by (auto simp: bind_exn_eq_Inr)
    then have "is_dict vpl" "plane_shaped rest"
      using items_Inr Cons.IH by blast+
    then show ?thesis using p by (simp add: plane_shaped_def)
  qed
qed

lemma visit_stations_shaped: "visit_stations rv stations = Inr rv' \<Longrightarrow> tree_shaped stations"
proof (induction stations arbitrary: rv)
  case Nil
  then show ?case by (simp add: tree_shaped_def)
next
  case (Cons p rest)
  obtain kst vst where p: "p = (kst, vst)" by (cases p)
  show ?case
  proof (cases "match_station kst")
    case False
    then have "visit_stations rv rest = Inr rv'" using Cons.prems p by simp
    then have "tree_shaped rest" by (rule Cons.IH)
    then show ?thesis using False p by (simp add: tree_shaped_def)
  next
    case True
    then obtain planes rv1 where
      s: "items vst = Inr planes" "visit_planes rv planes = Inr rv1"
         "visit_stations rv1 rest = Inr rv'"
      using Cons.prems p by (auto simp: bind_exn_eq_Inr)
    have "is_dict vst" "dict_items vst = planes" using items_Inr [OF s(1)] by simp_all
    moreover have "plane_shaped planes" using s(2) by (rule visit_planes_shaped)
    moreover have "tree_shaped rest" using s(3) by (rule Cons.IH)
    ultimately show ?thesis using p by (simp add: tree_shaped_def)
  qed
qed

lemma navigate_flat:
  assumes "tracker_stations configuration = Inr stations" and "tree_shaped stations"
  shows "navigate configuration = visit_all [] (panel_nodes stations)"
  using assms by (simp add: navigate_def visit_stations_flat)

lemma navigate_Inr:
  assumes "tracker_stations configuration = Inr stations" and "navigate configuration = Inr rv"
  shows "visit_all [] (panel_nodes stations) = Inr rv"
proof -
  have v: "visit_stations [] stations = Inr rv"
    using assms by (simp add: navigate_def)
  then have "tree_shaped stations" by (rule visit_stations_shaped)
  then show ?thesis using v by (simp add: visit_stations_flat)
qed

section \<open>One panel visit\<close>

lemma update_fresh: "k \<notin> fst ` set rv \<Longrightarrow> AList.update k r rv = rv @ [(k, r)]"
  by (induction rv) auto

lemma disabled_indices_list:
  "\<forall>i \<in> set is. i < length enabled \<Longrightarrow>
     disabled_indices (JArr enabled) is
       = Inr (map int (filter (\<lambda>i. \<not> truthy (enabled ! i)) is))"
  by (induction "is") (simp_all add: getitem_def)

lemma read_mask_list:
  assumes "subscript vpn ''ch_mask'' = Inr (JArr enabled)"
  shows "read_mask vpn =
     (if length enabled \<noteq> 96 then Inl (Exception ''malformed readout mask'')
      else Inr [''readout_disabled'' \<mapsto> falsy_indices enabled])"
proof -
  have "disabled_indices (JArr enabled) [0..<length enabled]
      = Inr (falsy_indices enabled)"
    by (simp add: disabled_indices_list falsy_indices_def)
  then show ?thesis
    using assms by (auto simp: read_mask_def len_def)
qed

lemma panel_key_Some:
  "panel_key vpn = Some k \<longleftrightarrow> (\<exists>label. subscript vpn ''Name'' = Inr label \<and> hash_key label = Inr k)"
  by (auto simp: panel_key_def split: sum.splits)

lemma visit_panel_duplicate:
  assumes "subscript vpn ''Name'' = Inr label" and "hash_key label = Inr k"
    and "k \<in> fst ` set rv"
  shows "visit_panel rv vpn = Inl (Exception (''encountered duplicate panel '' @ py_str label))"
  using assms by (simp add: visit_panel_def)

lemma visit_panel_fresh:
  assumes "subscript vpn ''Name'' = Inr label" and "hash_key label = Inr k"
    and "k \<notin> fst ` set rv"
  shows "visit_panel rv vpn =
     (case read_mask vpn of
        Inl e \<Rightarrow> Inl (Exception (''exception: '' @ py_str label @ '': '' @ str_exn e))
      | Inr r \<Rightarrow> Inr (rv @ [(k, r)]))"
  using assms by (simp add: visit_panel_def update_fresh split: sum.splits)

lemma visit_panel_Inr:
  assumes "visit_panel rv vpn = Inr rv'"
  shows "\<exists>k r. panel_key vpn = Some k \<and> k \<notin> fst ` set rv \<and> read_mask vpn = Inr r
           \<and> rv' = rv @ [(k, r)]"
proof -
  from assms obtain label k where
    n: "subscript vpn ''Name'' = Inr label" "hash_key label = Inr k"
    and rest: "(if k \<in> fst ` set rv
        then Inl (Exception (''encountered duplicate panel '' @ py_str label))
        else (case read_mask vpn of
                Inl e \<Rightarrow> Inl (Exception (''exception: '' @ py_str label @ '': '' @ str_exn e))
              | Inr r \<Rightarrow> Inr (AList.update k r rv))) = Inr rv'"
    unfolding visit_panel_def by (auto simp: bind_exn_eq_Inr)
  from rest have fresh: "k \<notin> fst ` set rv" by (auto split: if_splits)
  with rest obtain r where r: "read_mask vpn = Inr r" "rv' = AList.update k r rv"
    by (auto split: sum.splits)
  have "panel_key vpn = Some k" using n by (simp add: panel_key_Some)
  then show ?thesis using fresh r by (auto simp: update_fresh)
qed

lemma visit_all_Inr:
  assumes "visit_all rv ps = Inr rv'"
  shows "\<exists>new. rv' = rv @ new
           \<and> map (\<lambda>e. Some (fst e)) new = map panel_key ps
           \<and> map (\<lambda>e. Inr (snd e)) new = map read_mask ps
           \<and> distinct (map fst new) \<and> fst ` set new \<inter> fst ` set rv = {}"
  using assms
proof (induction ps arbitrary: rv)
  case Nil
  then show ?case by simp
next
  case (Cons vpn ps)
  from Cons.prems obtain rv1 where
    v: "visit_panel rv vpn = Inr rv1" and rest: "visit_all rv1 ps = Inr rv'"
    by (auto simp: bind_exn_eq_Inr)
  from visit_panel_Inr [OF v] obtain k r where
    kr: "panel_key vpn = Some k" "k \<notin> fst ` set rv" "read_mask vpn = Inr r" "rv1 = rv @ [(k, r)]"
    by blast
  from Cons.IH [OF rest] obtain new where
    new: "rv' = rv1 @ new" "map (\<lambda>e. Some (fst e)) new = map panel_key ps"
      "map (\<lambda>e. Inr (snd e)) new = map read_mask ps"
      "distinct (map fst new)" "fst ` set new \<inter> fst ` set rv1 = {}"
    by blast
  let ?new = "(k, r) # new"
  have "rv' = rv @ ?new" using new(1) kr(4) by simp
  moreover have "map (\<lambda>e. Some (fst e)) ?new = map panel_key (vpn # ps)"
    using new(2) kr(1) by simp
  moreover have "map (\<lambda>e. Inr (snd e)) ?new = map read_mask (vpn # ps)"
    using new(3) kr(3) by simp
  moreover have "distinct (map fst ?new)"
    using new(4,5) kr(4) by auto
  moreover have "fst ` set ?new \<inter> fst ` set rv = {}"
    using new(5) kr(2,4) by auto
  ultimately show ?case by blast
qed

lemma visit_all_keys:
  assumes "visit_all [] ps = Inr rv"
  shows "distinct (map fst rv)"
    and "map (\<lambda>e. Some (fst e)) rv = map panel_key ps"
    and "map (\<lambda>e. Inr (snd e)) rv = map read_mask ps"
  using visit_all_Inr [OF assms] by auto

lemma visit_all_nth:
  assumes "visit_all [] ps = Inr rv" and "i < length ps"
  shows "i < length rv" and "panel_key (ps ! i) = Some (fst (rv ! i))"
    and "read_mask (ps ! i) = Inr (snd (rv ! i))"
proof -
  have len: "length rv = length ps"
    using visit_all_keys(2) [OF assms(1)] by (metis length_map)
  then show i: "i < length rv" using assms(2) by simp
  have "map (\<lambda>e. Some (fst e)) rv ! i = map panel_key ps ! i"
    using visit_all_keys(2) [OF assms(1)] by simp
  then show "panel_key (ps ! i) = Some (fst (rv ! i))"
    using i assms(2) by simp
  have "map (\<lambda>e. Inr (snd e)) rv ! i = map read_mask ps ! i"
    using visit_all_keys(3) [OF assms(1)] by simp
  then show "read_mask (ps ! i) = Inr (snd (rv ! i))"
    using i assms(2) by simp
qed

lemma visit_all_entry:
  assumes "visit_all [] ps = Inr rv" and "vpn \<in> set ps"
  shows "\<exists>k r. panel_key vpn = Some k \<and> read_mask vpn = Inr r \<and> map_of rv k = Some r"
proof -
  from assms(2) obtain i where i: "i < length ps" "ps ! i = vpn"
    by (auto simp: in_set_conv_nth)
  note n = visit_all_nth [OF assms(1) i(1)]
  have "(fst (rv ! i), snd (rv ! i)) \<in> set rv" using n(1) by simp
  then have "map_of rv (fst (rv ! i)) = Some (snd (rv ! i))"
    using visit_all_keys(1) [OF assms(1)] by (rule map_of_is_SomeI [rotated])
  then show ?thesis using n(2,3) i(2) by blast
qed

lemma visit_all_key_set:
  assumes "visit_all [] ps = Inr rv"
  shows "k \<in> fst ` set rv \<longleftrightarrow> Some k \<in> panel_key ` set ps"
proof -
  have eq: "(\<lambda>e. Some (fst e)) ` set rv = panel_key ` set ps"
    using arg_cong [OF visit_all_keys(2) [OF assms], of set] by (simp only: set_map)
  show ?thesis
  proof
    assume "k \<in> fst ` set rv"
    then obtain e where "e \<in> set rv" "k = fst e" by blast
    then have "Some k \<in> (\<lambda>e. Some (fst e)) ` set rv" by blast
    then show "Some k \<in> panel_key ` set ps" by (simp only: eq)
  next
    assume "Some k \<in> panel_key ` set ps"
    then have "Some k \<in> (\<lambda>e. Some (fst e)) ` set rv" by (simp only: eq)
    then obtain e where "e \<in> set rv" "Some k = Some (fst e)" by blast
    then show "k \<in> fst ` set rv" by auto
  qed
qed

lemma navigate_at:
  assumes "tracker_stations configuration = Inr stations" and "tree_shaped stations"
    and "panel_nodes stations = pre @ vpn # post" and "visit_all [] pre = Inr rv1"
  shows "navigate configuration = bind_exn (visit_panel rv1 vpn) (\<lambda>rv'. visit_all rv' post)"
  using navigate_flat [OF assms(1,2)] assms(3,4) by (simp add: visit_all_append)

lemma falsy_indices_sorted:
  "sorted (falsy_indices enabled)" "distinct (falsy_indices enabled)"
  "set (falsy_indices enabled) = int ` {i. i < length enabled \<and> \<not> truthy (enabled ! i)}"
proof -
  let ?is = "filter (\<lambda>i. \<not> truthy (enabled ! i)) [0..<length enabled]"
  have s: "sorted ?is" "distinct ?is" by (simp_all add: sorted_wrt_filter)
  show "sorted (falsy_indices enabled)"
    unfolding falsy_indices_def using s(1) by (simp add: sorted_map sorted_wrt_mono_rel [of ?is])
  show "distinct (falsy_indices enabled)"
    unfolding falsy_indices_def using s(2) by (simp add: distinct_map inj_on_def)
  show "set (falsy_indices enabled) = int ` {i. i < length enabled \<and> \<not> truthy (enabled ! i)}"
    unfolding falsy_indices_def by auto
qed

section \<open>Example configurations\<close>

lemma subscript_panel_node:
  "subscript (panel_node name enabled) ''Name'' = Inr (JStr name)"
  "subscript (panel_node name enabled) ''ch_mask'' = Inr (JArr enabled)"
  by (simp_all add: panel_node_def subscript_def)

lemma hash_key_JStr: "hash_key (JStr name) = Inr (KStr name)"
  by (simp add: hash_key_def)

lemma panel_key_panel_node: "panel_key (panel_node name enabled) = Some (KStr name)"
  by (simp add: panel_key_def subscript_panel_node hash_key_JStr)

lemma visit_panel_node:
  "visit_panel rv (panel_node name enabled) =
     (if KStr name \<in> fst ` set rv
      then Inl (Exception (''encountered duplicate panel '' @ name))
      else if length enabled \<noteq> 96
      then Inl (Exception (''exception: '' @ name @ '': malformed readout mask''))
      else Inr (rv @ [(KStr name, [''readout_disabled'' \<mapsto> falsy_indices enabled])]))"
proof (cases "KStr name \<in> fst ` set rv")
  case True
  then show ?thesis
    using visit_panel_duplicate [where vpn = "panel_node name enabled" and label = "JStr name"
        and k = "KStr name" and rv = rv, OF subscript_panel_node(1) hash_key_JStr]
    by (simp add: py_str_def)
next
  case False
  then show ?thesis
    using visit_panel_fresh [where vpn = "panel_node name enabled" and label = "JStr name"
        and k = "KStr name" and rv = rv, OF subscript_panel_node(1) hash_key_JStr]
    by (simp add: read_mask_list [OF subscript_panel_node(2)] py_str_def str_exn_def)
qed

lemma tracker_one_plane:
  "tracker_stations (one_plane_tree panels) =
     Inr [(''Station_00'', JObj [(''Plane_00'', JObj panels)])]"
  by (simp add: tracker_stations_def one_plane_tree_def subscript_def items_def)

lemma one_plane_shape:
  "tree_shaped [(''Station_00'', JObj [(''Plane_00'', JObj panels)])]"
  "panel_nodes [(''Station_00'', JObj [(''Plane_00'', JObj panels)])] = panels_of_plane panels"
  by (simp_all add: tree_shaped_def plane_shaped_def is_dict_def dict_items_def panel_nodes_def
      panels_of_station_def match_station_def match_plane_def is_digit_def)

lemma navigate_one_plane:
  "navigate (one_plane_tree panels) = visit_all [] (panels_of_plane panels)"
  using navigate_flat [OF tracker_one_plane one_plane_shape(1)]
  by (simp only: one_plane_shape(2))

lemma match_panel_examples: "match_panel ''Panel_00''" "match_panel ''Panel_01''"
  by (simp_all add: match_panel_def is_digit_def)

section \<open>Claims about the Configuration Navigator\<close>

text \<open>
  C5 as stated fails: the duplicate check of line 67 comes before the mask is read. Below,
  the mask of \<open>Panel_01\<close> is empty, so its length is not 96, but its name was already
  recorded for \<open>Panel_00\<close>: the traversal fails with the duplicate-panel exception, not
  with the malformed-mask exception.
\<close>

theorem malformed_mask_after_duplicate_counterexample:
  "navigate (one_plane_tree
      [(''Panel_00'', panel_node ''MN001'' (replicate 96 (JBool True))),
       (''Panel_01'', panel_node ''MN001'' [])])
     = Inl (Exception ''encountered duplicate panel MN001'')"
  by (simp add: navigate_one_plane panels_of_plane_def match_panel_examples visit_panel_node)

text \<open>
  C5 as amended. A matched panel node whose mask is a sequence of a length other than 96
  makes the traversal fail. In a tree of the schema's shape, when the visits of the panel
  nodes before it have passed and none of them carries its name, the failure is the
  exception whose message is \<open>exception:\<close>, the panel's name and \<open>malformed readout mask\<close>.
  When the traversal succeeds, a mask has length 96 and the record stored under the
  panel's name holds as \<open>readout_disabled\<close> the indices of the falsy mask entries, in
  increasing order.
\<close>

theorem malformed_mask_rejected:
  assumes "tracker_stations configuration = Inr stations"
  shows "(\<forall>vpn enabled. vpn \<in> set (panel_nodes stations)
            \<and> subscript vpn ''ch_mask'' = Inr (JArr enabled) \<and> length enabled \<noteq> 96
          \<longrightarrow> (\<exists>e. navigate configuration = Inl e))
    \<and> (\<forall>pre vpn post rv label k enabled.
          tree_shaped stations \<and> panel_nodes stations = pre @ vpn # post
            \<and> visit_all [] pre = Inr rv
            \<and> subscript vpn ''Name'' = Inr label \<and> hash_key label = Inr k
            \<and> Some k \<notin> panel_key ` set pre
            \<and> subscript vpn ''ch_mask'' = Inr (JArr enabled) \<and> length enabled \<noteq> 96
          \<longrightarrow> navigate configuration
                = Inl (Exception (''exception: '' @ py_str label @ '': malformed readout mask'')))
    \<and> (\<forall>rv vpn enabled. navigate configuration = Inr rv \<and> vpn \<in> set (panel_nodes stations)
            \<and> subscript vpn ''ch_mask'' = Inr (JArr enabled)
          \<longrightarrow> length enabled = 96
              \<and> (\<exists>k. panel_key vpn = Some k
                    \<and> map_of rv k = Some [''readout_disabled'' \<mapsto> falsy_indices enabled]))
    \<and> (\<forall>enabled. sorted (falsy_indices enabled)
          \<and> set (falsy_indices enabled)
              = int ` {i. i < length enabled \<and> \<not> truthy (enabled ! i)})"
proof -
  have success: "\<And>rv vpn enabled. navigate configuration = Inr rv \<Longrightarrow>
      vpn \<in> set (panel_nodes stations) \<Longrightarrow> subscript vpn ''ch_mask'' = Inr (JArr enabled) \<Longrightarrow>
      length enabled = 96
        \<and> (\<exists>k. panel_key vpn = Some k
              \<and> map_of rv k = Some [''readout_disabled'' \<mapsto> falsy_indices enabled])"
  proof -
    fix rv vpn enabled
    assume nav: "navigate configuration = Inr rv"
      and mem: "vpn \<in> set (panel_nodes stations)"
      and m: "subscript vpn ''ch_mask'' = Inr (JArr enabled)"
    have va: "visit_all [] (panel_nodes stations) = Inr rv"
      using assms nav by (rule navigate_Inr)
    from visit_all_entry [OF va mem] obtain k r where
      kr: "panel_key vpn = Some k" "read_mask vpn = Inr r" "map_of rv k = Some r"
      by blast
    have "length enabled = 96 \<and> r = [''readout_disabled'' \<mapsto> falsy_indices enabled]"
      using kr(2) read_mask_list [OF m] by (auto split: if_splits)
    then show "length enabled = 96
        \<and> (\<exists>k. panel_key vpn = Some k
              \<and> map_of rv k = Some [''readout_disabled'' \<mapsto> falsy_indices enabled])"
      using kr(1,3) by blast
  qed
  have fails: "\<forall>vpn enabled. vpn \<in> set (panel_nodes stations)
            \<and> subscript vpn ''ch_mask'' = Inr (JArr enabled) \<and> length enabled \<noteq> 96
          \<longrightarrow> (\<exists>e. navigate configuration = Inl e)"
  proof (intro allI impI)
    fix vpn enabled
    assume a: "vpn \<in> set (panel_nodes stations)
            \<and> subscript vpn ''ch_mask'' = Inr (JArr enabled) \<and> length enabled \<noteq> 96"
    show "\<exists>e. navigate configuration = Inl e"
    proof (cases "navigate configuration")
      case (Inl e)
      then show ?thesis by blast
    next
      case (Inr rv)
      then have "length enabled = 96" using success a by blast
      then show ?thesis using a by simp
    qed
  qed
  have first: "\<forall>pre vpn post rv label k enabled.
          tree_shaped stations \<and> panel_nodes stations = pre @ vpn # post
            \<and> visit_all [] pre = Inr rv
            \<and> subscript vpn ''Name'' = Inr label \<and> hash_key label = Inr k
            \<and> Some k \<notin> panel_key ` set pre
            \<and> subscript vpn ''ch_mask'' = Inr (JArr enabled) \<and> length enabled \<noteq> 96
          \<longrightarrow> navigate configuration
                = Inl (Exception (''exception: '' @ py_str label @ '': malformed readout mask''))"
  proof (intro allI impI)
    fix pre vpn post rv label k enabled
    assume a: "tree_shaped stations \<and> panel_nodes stations = pre @ vpn # post
            \<and> visit_all [] pre = Inr rv
            \<and> subscript vpn ''Name'' = Inr label \<and> hash_key label = Inr k
            \<and> Some k \<notin> panel_key ` set pre
            \<and> subscript vpn ''ch_mask'' = Inr (JArr enabled) \<and> length enabled \<noteq> 96"
    then have fresh: "k \<notin> fst ` set rv"
      using visit_all_key_set [where ps = pre and rv = rv and k = k] by blast
    have "read_mask vpn = Inl (Exception ''malformed readout mask'')"
      using a read_mask_list [where vpn = vpn and enabled = enabled] by simp
    then have "visit_panel rv vpn
        = Inl (Exception (''exception: '' @ py_str label @ '': malformed readout mask''))"
      using a fresh visit_panel_fresh [where vpn = vpn and label = label and k = k and rv = rv]
      by (simp add: str_exn_def)
    moreover have "navigate configuration
        = bind_exn (visit_panel rv vpn) (\<lambda>rv'. visit_all rv' post)"
      using a navigate_at [OF assms, where pre = pre and vpn = vpn and post = post and ?rv1.0 = rv]
      by blast
    ultimately show "navigate configuration
        = Inl (Exception (''exception: '' @ py_str label @ '': malformed readout mask''))"
      by simp
  qed
  have sorted: "\<forall>enabled. sorted (falsy_indices enabled)
          \<and> set (falsy_indices enabled)
              = int ` {i. i < length enabled \<and> \<not> truthy (enabled ! i)}"
    using falsy_indices_sorted(1,3) by blast
  have success': "\<forall>rv vpn enabled. navigate configuration = Inr rv \<and> vpn \<in> set (panel_nodes stations)
            \<and> subscript vpn ''ch_mask'' = Inr (JArr enabled)
          \<longrightarrow> length enabled = 96
              \<and> (\<exists>k. panel_key vpn = Some k
                    \<and> map_of rv k = Some [''readout_disabled'' \<mapsto> falsy_indices enabled])"
    using success by blast
  show ?thesis
    by (intro conjI) (rule fails, rule first, rule success', rule sorted)
qed

theorem malformed_mask_rejected_witness:
  "navigate (one_plane_tree
      [(''Panel_00'', panel_node ''MN001'' (replicate 96 (JBool True))),
       (''Panel_01'', panel_node ''MN002'' [JBool True, JBool False])])
     = Inl (Exception ''exception: MN002: malformed readout mask'')"
proof -
  let ?p0 = "panel_node ''MN001'' (replicate 96 (JBool True))"
  let ?p1 = "panel_node ''MN002'' [JBool True, JBool False]"
  let ?panels = "[(''Panel_00'', ?p0), (''Panel_01'', ?p1)]"
  let ?stations = "[(''Station_00'', JObj [(''Plane_00'', JObj ?panels)])]"
  let ?rv = "[(KStr ''MN001'', [''readout_disabled'' \<mapsto> falsy_indices (replicate 96 (JBool True))])]"
  have nodes: "panel_nodes ?stations = [?p0] @ ?p1 # []"
    by (simp add: one_plane_shape(2) panels_of_plane_def match_panel_examples)
  have pre: "visit_all [] [?p0] = Inr ?rv"
    by (simp add: visit_panel_node)
  have fresh: "Some (KStr ''MN002'') \<notin> panel_key ` set [?p0]"
    by (simp add: panel_key_panel_node)
  have hyps: "tree_shaped ?stations \<and> panel_nodes ?stations = [?p0] @ ?p1 # []
      \<and> visit_all [] [?p0] = Inr ?rv
      \<and> subscript ?p1 ''Name'' = Inr (JStr ''MN002'')
      \<and> hash_key (JStr ''MN002'') = Inr (KStr ''MN002'')
      \<and> Some (KStr ''MN002'') \<notin> panel_key ` set [?p0]
      \<and> subscript ?p1 ''ch_mask'' = Inr (JArr [JBool True, JBool False])
      \<and> length [JBool True, JBool False] \<noteq> 96"
    using one_plane_shape(1) nodes pre fresh
    by (simp add: subscript_panel_node hash_key_JStr)
  have "navigate (one_plane_tree ?panels)
      = Inl (Exception (''exception: '' @ py_str (JStr ''MN002'') @ '': malformed readout mask''))"
    using malformed_mask_rejected [OF tracker_one_plane, THEN conjunct2, THEN conjunct1,
        rule_format, OF hyps] .
  then show ?thesis by (simp add: py_str_def)
qed

text \<open>
  C6 as stated fails: a visit that raises ends the traversal before a later panel is
  looked at. Below, both panels are named \<open>MN001\<close>, but the mask of the first is empty:
  the traversal fails with the malformed-mask exception of the first panel, not with the
  duplicate-panel exception.
\<close>

theorem duplicate_after_malformed_mask_counterexample:
  "navigate (one_plane_tree
      [(''Panel_00'', panel_node ''MN001'' []),
       (''Panel_01'', panel_node ''MN001'' (replicate 96 (JBool True)))])
     = Inl (Exception ''exception: MN001: malformed readout mask'')"
  by (simp add: navigate_one_plane panels_of_plane_def match_panel_examples visit_panel_node)

text \<open>
  C6 as amended. A tree in which two matched panel nodes carry the same name makes the
  traversal fail, never merging or overwriting. In a tree of the schema's shape, when the
  visits of the panel nodes before the later of the two have passed, the failure is the
  exception whose message is \<open>encountered duplicate panel\<close> and the name. A successful
  output has exactly one key per matched panel node, in visit order, all different.
\<close>

theorem duplicate_label_rejected:
  assumes "tracker_stations configuration = Inr stations"
  shows "(\<forall>i j name. i < j \<and> j < length (panel_nodes stations)
            \<and> subscript (panel_nodes stations ! i) ''Name'' = Inr name
            \<and> subscript (panel_nodes stations ! j) ''Name'' = Inr name
          \<longrightarrow> (\<exists>e. navigate configuration = Inl e))
    \<and> (\<forall>pre vpn post rv label k.
          tree_shaped stations \<and> panel_nodes stations = pre @ vpn # post
            \<and> visit_all [] pre = Inr rv
            \<and> subscript vpn ''Name'' = Inr label \<and> hash_key label = Inr k
            \<and> Some k \<in> panel_key ` set pre
          \<longrightarrow> navigate configuration
                = Inl (Exception (''encountered duplicate panel '' @ py_str label)))
    \<and> (\<forall>rv. navigate configuration = Inr rv
          \<longrightarrow> distinct (map fst rv)
              \<and> map (\<lambda>e. Some (fst e)) rv = map panel_key (panel_nodes stations))"
proof -
  let ?pn = "panel_nodes stations"
  have success: "\<forall>rv. navigate configuration = Inr rv
          \<longrightarrow> distinct (map fst rv) \<and> map (\<lambda>e. Some (fst e)) rv = map panel_key ?pn"
    using navigate_Inr [OF assms] visit_all_keys(1,2) by blast
  have fails: "\<forall>i j name. i < j \<and> j < length ?pn
            \<and> subscript (?pn ! i) ''Name'' = Inr name
            \<and> subscript (?pn ! j) ''Name'' = Inr name
          \<longrightarrow> (\<exists>e. navigate configuration = Inl e)"
  proof (intro allI impI)
    fix i j name
    assume a: "i < j \<and> j < length ?pn
            \<and> subscript (?pn ! i) ''Name'' = Inr name
            \<and> subscript (?pn ! j) ''Name'' = Inr name"
    show "\<exists>e. navigate configuration = Inl e"
    proof (cases "navigate configuration")
      case (Inl e)
      then show ?thesis by blast
    next
      case (Inr rv)
      have va: "visit_all [] ?pn = Inr rv" using assms Inr by (rule navigate_Inr)
      have i: "i < length ?pn" and j: "j < length ?pn" using a by simp_all
      note ni = visit_all_nth [OF va i] and nj = visit_all_nth [OF va j]
      have "panel_key (?pn ! i) = panel_key (?pn ! j)"
        using a by (simp add: panel_key_def)
      then have "map fst rv ! i = map fst rv ! j"
        using ni(1,2) nj(1,2) by simp
      moreover have "distinct (map fst rv)" using va by (rule visit_all_keys(1))
      ultimately have "i = j"
        using ni(1) nj(1) by (metis nth_eq_iff_index_eq length_map)
      then show ?thesis using a by simp
    qed
  qed
  have first: "\<forall>pre vpn post rv label k.
          tree_shaped stations \<and> panel_nodes stations = pre @ vpn # post
            \<and> visit_all [] pre = Inr rv
            \<and> subscript vpn ''Name'' = Inr label \<and> hash_key label = Inr k
            \<and> Some k \<in> panel_key ` set pre
          \<longrightarrow> navigate configuration
                = Inl (Exception (''encountered duplicate panel '' @ py_str label))"
  proof (intro allI impI)
    fix pre vpn post rv label k
    assume a: "tree_shaped stations \<and> panel_nodes stations = pre @ vpn # post
            \<and> visit_all [] pre = Inr rv
            \<and> subscript vpn ''Name'' = Inr label \<and> hash_key label = Inr k
            \<and> Some k \<in> panel_key ` set pre"
    then have seen: "k \<in> fst ` set rv"
      using visit_all_key_set [where ps = pre and rv = rv and k = k] by blast
    have "visit_panel rv vpn
        = Inl (Exception (''encountered duplicate panel '' @ py_str label))"
      using a seen visit_panel_duplicate [where vpn = vpn and label = label and k = k and rv = rv]
      by blast
    moreover have "navigate configuration
        = bind_exn (visit_panel rv vpn) (\<lambda>rv'. visit_all rv' post)"
      using a navigate_at [OF assms, where pre = pre and vpn = vpn and post = post and ?rv1.0 = rv]
      by blast
    ultimately show "navigate configuration
        = Inl (Exception (''encountered duplicate panel '' @ py_str label))"
      by simp
  qed
  show ?thesis
    by (intro conjI) (rule fails, rule first, rule success)
qed

theorem duplicate_label_rejected_witness:
  "navigate (one_plane_tree
      [(''Panel_00'', panel_node ''MN001'' (replicate 96 (JBool True))),
       (''Panel_01'', panel_node ''MN001'' (replicate 96 (JBool False)))])
     = Inl (Exception ''encountered duplicate panel MN001'')"
proof -
  let ?p0 = "panel_node ''MN001'' (replicate 96 (JBool True))"
  let ?p1 = "panel_node ''MN001'' (replicate 96 (JBool False))"
  let ?panels = "[(''Panel_00'', ?p0), (''Panel_01'', ?p1)]"
  let ?stations = "[(''Station_00'', JObj [(''Plane_00'', JObj ?panels)])]"
  let ?rv = "[(KStr ''MN001'', [''readout_disabled'' \<mapsto> falsy_indices (replicate 96 (JBool True))])]"
  have nodes: "panel_nodes ?stations = [?p0] @ ?p1 # []"
    by (simp add: one_plane_shape(2) panels_of_plane_def match_panel_examples)
  have pre: "visit_all [] [?p0] = Inr ?rv"
    by (simp add: visit_panel_node)
  have seen: "Some (KStr ''MN001'') \<in> panel_key ` set [?p0]"
    by (simp add: panel_key_panel_node)
  have hyps: "tree_shaped ?stations \<and> panel_nodes ?stations = [?p0] @ ?p1 # []
      \<and> visit_all [] [?p0] = Inr ?rv
      \<and> subscript ?p1 ''Name'' = Inr (JStr ''MN001'')
      \<and> hash_key (JStr ''MN001'') = Inr (KStr ''MN001'')
      \<and> Some (KStr ''MN001'') \<in> panel_key ` set [?p0]"
    using one_plane_shape(1) nodes pre seen
    by (simp add: subscript_panel_node hash_key_JStr)
  have "navigate (one_plane_tree ?panels)
      = Inl (Exception (''encountered duplicate panel '' @ py_str (JStr ''MN001'')))"
    using duplicate_label_rejected [OF tracker_one_plane, THEN conjunct2, THEN conjunct1,
        rule_format, OF hyps] .
  then show ?thesis by (simp add: py_str_def)
qed

end
